theory Spec2Isabelle
  imports Complex_Main "HOL-Library.Sublist" "HOL-Library.Log_Nat" "HOL-Library.Word"
begin

section \<open>Python strings and bytes\<close>

text \<open>
  A Python \<open>str\<close> is a sequence of Unicode code points, a \<open>bytes\<close> object a sequence of
  octets. String literals of the sources are written with \<open>lit\<close> when they are ASCII and
  as code point lists otherwise.
\<close>

type_synonym pystr = "nat list"
type_synonym byte = "8 word"

definition lit :: "string \<Rightarrow> pystr" where
  "lit s = map of_char s"

definition blit :: "string \<Rightarrow> byte list" where
  "blit s = map of_char s"

text \<open>\<open>sub in s\<close>, \<open>s.startswith(p)\<close>, \<open>s.endswith(p)\<close>, \<open>s.find(sub)\<close>.\<close>

fun py_contains :: "'a list \<Rightarrow> 'a list \<Rightarrow> bool" where
  "py_contains sub [] = (sub = [])"
| "py_contains sub (c # cs) = (prefix sub (c # cs) \<or> py_contains sub cs)"

definition py_startswith :: "'a list \<Rightarrow> 'a list \<Rightarrow> bool" where
  "py_startswith s p = prefix p s"

definition py_endswith :: "'a list \<Rightarrow> 'a list \<Rightarrow> bool" where
  "py_endswith s p = suffix p s"

fun find_at :: "'a list \<Rightarrow> 'a list \<Rightarrow> nat option" where
  "find_at sub [] = (if sub = [] then Some 0 else None)"
| "find_at sub (c # cs) =
     (if prefix sub (c # cs) then Some 0 else map_option Suc (find_at sub cs))"

definition py_find :: "'a list \<Rightarrow> 'a list \<Rightarrow> int" where
  "py_find s sub = (case find_at sub s of None \<Rightarrow> - 1 | Some i \<Rightarrow> int i)"

text \<open>\<open>str.isspace\<close> on one code point, and \<open>str.strip()\<close>.\<close>

definition py_isspace :: "nat \<Rightarrow> bool" where
  "py_isspace c =
     ((9 \<le> c \<and> c \<le> 13) \<or> (28 \<le> c \<and> c \<le> 32) \<or> c = 133 \<or> c = 160 \<or> c = 5760
      \<or> (8192 \<le> c \<and> c \<le> 8202) \<or> c = 8232 \<or> c = 8233 \<or> c = 8239 \<or> c = 8287
      \<or> c = 12288)"

definition py_strip :: "pystr \<Rightarrow> pystr" where
  "py_strip s = rev (dropWhile py_isspace (rev (dropWhile py_isspace s)))"

text \<open>\<open>s.replace(old, new)\<close>: the occurrences of \<open>old\<close> are replaced from the left,
  without overlap; an empty \<open>old\<close> puts \<open>new\<close> before every character and at the end.\<close>

function py_replace :: "'a list \<Rightarrow> 'a list \<Rightarrow> 'a list \<Rightarrow> 'a list" where
  "py_replace old new [] = (if old = [] then new else [])"
| "py_replace old new (c # cs) =
     (if old = [] then new @ c # py_replace old new cs
      else if prefix old (c # cs) then new @ py_replace old new (drop (length old) (c # cs))
      else c # py_replace old new cs)"
  by pat_completeness auto
termination
  by (relation "measure (\<lambda>(old, new, s). length s)") auto

text \<open>\<open>str(n)\<close> for an integer: decimal digits, a minus sign before a negative one.\<close>

fun str_nat :: "nat \<Rightarrow> pystr" where
  "str_nat n = (if n < 10 then [48 + n] else str_nat (n div 10) @ [48 + n mod 10])"

declare str_nat.simps [simp del]

definition str_int :: "int \<Rightarrow> pystr" where
  "str_int i = (if i < 0 then 45 # str_nat (nat (- i)) else str_nat (nat i))"

text \<open>Reading a decimal string back: the digits \<open>0\<close> to \<open>9\<close> and the number they
  write.\<close>

definition is_digit :: "nat \<Rightarrow> bool" where
  "is_digit c = (48 \<le> c \<and> c \<le> 57)"

definition dec_value :: "pystr \<Rightarrow> nat" where
  "dec_value s = foldl (\<lambda>a c. 10 * a + (c - 48)) 0 s"

section \<open>Events and the network\<close>

text \<open>
  What the program does besides returning: the lines it prints and the HTTP requests it
  sends, in order. The replies of the network are an input of the model.
\<close>

datatype event = Print pystr | Get pystr

text \<open>
  The exceptions raised while the program runs, each with the text \<open>str(e)\<close> gives. The
  constructor says which handler of \<open>parse_bili\<close> catches it: a
  \<open>requests.RequestException\<close>, a \<open>json.JSONDecodeError\<close> that is not one, the other
  subclasses of \<open>Exception\<close> (a \<open>UnicodeEncodeError\<close> of \<open>print\<close> is an \<open>OtherException\<close>),
  and the two that derive from \<open>BaseException\<close> alone, which no handler of the program
  catches.
\<close>

datatype exn =
    RequestException pystr
  | JSONDecodeError pystr
  | AttributeError pystr
  | TypeError pystr
  | OverflowError pystr
  | OtherException pystr
  | KeyboardInterrupt
  | SystemExit pystr

fun exn_str :: "exn \<Rightarrow> pystr" where
  "exn_str (RequestException m) = m"
| "exn_str (JSONDecodeError m) = m"
| "exn_str (AttributeError m) = m"
| "exn_str (TypeError m) = m"
| "exn_str (OverflowError m) = m"
| "exn_str (OtherException m) = m"
| "exn_str KeyboardInterrupt = []"
| "exn_str (SystemExit m) = m"

text \<open>\<open>isinstance(e, Exception)\<close>.\<close>

fun is_Exception :: "exn \<Rightarrow> bool" where
  "is_Exception KeyboardInterrupt = False"
| "is_Exception (SystemExit m) = False"
| "is_Exception e = True"

text \<open>The reply to the short link request: \<open>response.status_code\<close> and
  \<open>response.headers.get('Location')\<close>.\<close>

record response =
  status_code :: int
  location :: "pystr option"

section \<open>Short link resolution (\<open>resolve_b23_url\<close>)\<close>

definition clean_location :: "pystr \<Rightarrow> pystr" where
  "clean_location location0 =
     (let query_index = py_find location0 (lit ''?'');
          location1 = (if query_index \<noteq> - 1 then take (nat query_index) location0 else location0)
      in if py_endswith location1 (lit ''/'') then butlast location1 else location1)"

definition b23_target :: "pystr \<Rightarrow> pystr" where
  "b23_target short_url_input =
     (if \<not> py_startswith short_url_input (lit ''http'') then lit ''https://'' @ short_url_input
      else short_url_input)"

text \<open>\<open>requests.get(..., allow_redirects=False)\<close> either raises a
  \<open>RequestException\<close> (\<open>Inl\<close> its text) or returns a response.\<close>

definition resolve_b23_url ::
  "(pystr \<Rightarrow> pystr + response) \<Rightarrow> pystr \<Rightarrow> pystr option \<times> event list" where
  "resolve_b23_url redirect_get short_url_input =
     (let target_b23_url = b23_target short_url_input in
      if \<not> py_contains (lit ''b23.tv/'') target_b23_url then (Some short_url_input, [])
      else
        (case redirect_get target_b23_url of
           Inl e \<Rightarrow>
             (None, [Get target_b23_url,
                     Print (lit ''Error resolving b23.tv link '' @ target_b23_url @ lit '': '' @ e)])
         | Inr resp \<Rightarrow>
             if status_code resp = 301 \<or> status_code resp = 302 then
               (case location resp of
                  Some loc \<Rightarrow>
                    if loc \<noteq> [] then (Some (clean_location loc), [Get target_b23_url])
                    else (None, [Get target_b23_url,
                                 Print (lit ''Warning: b23.tv redirect for '' @ target_b23_url
                                        @ lit '' missing Location header.'')])
                | None \<Rightarrow>
                    (None, [Get target_b23_url,
                            Print (lit ''Warning: b23.tv redirect for '' @ target_b23_url
                                   @ lit '' missing Location header.'')]))
             else
               (None, [Get target_b23_url,
                       Print (lit ''Warning: b23.tv did not redirect for '' @ target_b23_url
                              @ lit ''. Status: '' @ str_int (status_code resp))])))"

section \<open>Video id extraction (\<open>extract_bvid_from_url\<close>)\<close>

text \<open>The character class \<open>[a-zA-Z0-9]\<close>.\<close>

definition is_alnum :: "nat \<Rightarrow> bool" where
  "is_alnum c = ((97 \<le> c \<and> c \<le> 122) \<or> (65 \<le> c \<and> c \<le> 90) \<or> (48 \<le> c \<and> c \<le> 57))"

text \<open>A match of \<open>BV([a-zA-Z0-9]+)\<close> at the start of the string: the greedy group takes
  the longest run of class characters.\<close>

definition match_bv_here :: "pystr \<Rightarrow> pystr option" where
  "match_bv_here s =
     (case s of
        b # v # rest \<Rightarrow>
          (if b = 66 \<and> v = 86 \<and> takeWhile is_alnum rest \<noteq> []
           then Some (b # v # takeWhile is_alnum rest) else None)
      | _ \<Rightarrow> None)"

text \<open>\<open>re.search\<close> tries the positions from the left; \<open>group(0)\<close> is the matched text.\<close>

fun re_search_bv :: "pystr \<Rightarrow> pystr option" where
  "re_search_bv [] = None"
| "re_search_bv (c # cs) =
     (case match_bv_here (c # cs) of Some m \<Rightarrow> Some m | None \<Rightarrow> re_search_bv cs)"

definition extract_bvid_from_url :: "pystr \<Rightarrow> pystr option" where
  "extract_bvid_from_url url = (if url = [] then None else re_search_bv url)"

section \<open>Floats\<close>

text \<open>
  A Python \<open>float\<close> is an IEEE 754 binary64 number: a finite one is modelled by its exact
  rational value. \<open>round_double\<close> rounds a rational to the nearest binary64 (53 significant
  bits, ties to the even significand, exponent range of the format), as the arithmetic of
  the interpreter does after every operation.
\<close>

datatype pyfloat = Finite rat | PosInf | NegInf | NaN

definition pow2 :: "int \<Rightarrow> rat" where
  "pow2 k = (if 0 \<le> k then 2 ^ nat k else 1 / 2 ^ nat (- k))"

text \<open>The exponent of a positive rational: the \<open>e\<close> with \<open>2^e \<le> x < 2^(e+1)\<close>.\<close>

definition ilog2 :: "rat \<Rightarrow> int" where
  "ilog2 x =
     (let k = bitlen (fst (quotient_of x)) - bitlen (snd (quotient_of x))
      in if pow2 k \<le> x then k else k - 1)"

definition round_half_even :: "rat \<Rightarrow> int" where
  "round_half_even x =
     (let f = \<lfloor>x\<rfloor>; d = x - of_int f
      in if d < 1 / 2 then f else if 1 / 2 < d then f + 1 else if even f then f else f + 1)"

text \<open>The multiple of \<open>2^q\<close> nearest to a rational, ties to the even multiple.\<close>

definition round_to_quantum :: "int \<Rightarrow> rat \<Rightarrow> rat" where
  "round_to_quantum q a = of_int (round_half_even (a / pow2 q)) * pow2 q"

definition round_double :: "rat \<Rightarrow> pyfloat" where
  "round_double x =
     (if x = 0 then Finite 0
      else
        let a = \<bar>x\<bar>;
            q = max (ilog2 a) (- 1022) - 52;
            v = round_to_quantum q a
        in if pow2 1024 \<le> v then (if 0 < x then PosInf else NegInf)
           else Finite (if 0 < x then v else - v))"

text \<open>\<open>a / b\<close> on two integers: the quotient rounded once; a quotient beyond the floats
  raises.\<close>

definition int_truediv :: "int \<Rightarrow> int \<Rightarrow> exn + pyfloat" where
  "int_truediv a b =
     (if b = 0 then Inl (OtherException (lit ''division by zero''))
      else
        (case round_double (of_int a / of_int b) of
           Finite v \<Rightarrow> Inr (Finite v)
         | _ \<Rightarrow> Inl (OverflowError (lit ''integer division result too large for a float''))))"

text \<open>\<open>x >= n\<close> for a float and an integer (compared exactly), and \<open>x / d\<close> for a float
  and a positive finite divisor.\<close>

definition float_ge_int :: "pyfloat \<Rightarrow> int \<Rightarrow> bool" where
  "float_ge_int x n =
     (case x of Finite r \<Rightarrow> of_int n \<le> r | PosInf \<Rightarrow> True | NegInf \<Rightarrow> False | NaN \<Rightarrow> False)"

definition float_div_pos :: "pyfloat \<Rightarrow> rat \<Rightarrow> pyfloat" where
  "float_div_pos x d =
     (case x of Finite r \<Rightarrow> round_double (r / d) | PosInf \<Rightarrow> PosInf | NegInf \<Rightarrow> NegInf
      | NaN \<Rightarrow> NaN)"

text \<open>The format \<open>:.1f\<close>: the exact value rounded to one decimal, ties to even.\<close>

definition format_1f :: "pyfloat \<Rightarrow> pystr" where
  "format_1f x =
     (case x of
        Finite v \<Rightarrow>
          (let t = nat (round_half_even (\<bar>v\<bar> * 10))
           in (if v < 0 then [45] else []) @ str_nat (t div 10) @ [46] @ str_nat (t mod 10))
      | PosInf \<Rightarrow> lit ''inf''
      | NegInf \<Rightarrow> lit ''-inf''
      | NaN \<Rightarrow> lit ''nan'')"

section \<open>JSON values\<close>

text \<open>
  What \<open>response.json()\<close> returns: \<open>None\<close>, a \<open>bool\<close>, an \<open>int\<close>, a \<open>float\<close>, a
  \<open>str\<close>, a \<open>list\<close> or a \<open>dict\<close> (an association list, looked up from the left).
\<close>

datatype json =
    JNull
  | JBool bool
  | JInt int
  | JFloat pyfloat
  | JStr pystr
  | JArr "json list"
  | JObj "(pystr \<times> json) list"

fun type_name :: "json \<Rightarrow> pystr" where
  "type_name JNull = lit ''NoneType''"
| "type_name (JBool b) = lit ''bool''"
| "type_name (JInt n) = lit ''int''"
| "type_name (JFloat x) = lit ''float''"
| "type_name (JStr s) = lit ''str''"
| "type_name (JArr xs) = lit ''list''"
| "type_name (JObj kvs) = lit ''dict''"

text \<open>\<open>obj.get(key, default)\<close>: only a \<open>dict\<close> has the method.\<close>

definition py_get :: "json \<Rightarrow> pystr \<Rightarrow> json \<Rightarrow> exn + json" where
  "py_get obj key dflt =
     (case obj of
        JObj kvs \<Rightarrow> Inr (case map_of kvs key of Some v \<Rightarrow> v | None \<Rightarrow> dflt)
      | _ \<Rightarrow>
          Inl (AttributeError
                 ([39] @ type_name obj @ [39] @ lit '' object has no attribute '' @ [39]
                  @ lit ''get'' @ [39])))"

text \<open>The truth value of a value, and \<open>v == 0\<close>.\<close>

fun py_truthy :: "json \<Rightarrow> bool" where
  "py_truthy JNull = False"
| "py_truthy (JBool b) = b"
| "py_truthy (JInt n) = (n \<noteq> 0)"
| "py_truthy (JFloat x) = (x \<noteq> Finite 0)"
| "py_truthy (JStr s) = (s \<noteq> [])"
| "py_truthy (JArr xs) = (xs \<noteq> [])"
| "py_truthy (JObj kvs) = (kvs \<noteq> [])"

fun py_eq_zero :: "json \<Rightarrow> bool" where
  "py_eq_zero (JInt n) = (n = 0)"
| "py_eq_zero (JBool b) = (\<not> b)"
| "py_eq_zero (JFloat x) = (x = Finite 0)"
| "py_eq_zero v = False"

text \<open>
  \<open>str(v)\<close>, which is also what an f-string puts for \<open>{v}\<close>. The text of a float, a list or
  a dict is the interpreter's \<open>repr\<close>; the model takes it as the parameter \<open>str_other\<close>.
\<close>

definition py_str :: "(json \<Rightarrow> pystr) \<Rightarrow> json \<Rightarrow> pystr" where
  "py_str str_other v =
     (case v of
        JNull \<Rightarrow> lit ''None''
      | JBool b \<Rightarrow> (if b then lit ''True'' else lit ''False'')
      | JInt n \<Rightarrow> str_int n
      | JStr s \<Rightarrow> s
      | _ \<Rightarrow> str_other v)"

section \<open>\<open>format_number\<close>\<close>

text \<open>The unit after the one-decimal number, as the source file has it.\<close>

definition unit_wan :: pystr where
  "unit_wan = [228, 184, 8225]"

definition cmp_type_error :: "json \<Rightarrow> exn" where
  "cmp_type_error v =
     TypeError ([39] @ lit ''>='' @ [39] @ lit '' not supported between instances of '' @ [39]
                @ type_name v @ [39] @ lit '' and '' @ [39] @ lit ''int'' @ [39])"

definition format_number :: "(json \<Rightarrow> pystr) \<Rightarrow> json \<Rightarrow> exn + pystr" where
  "format_number str_other num =
     (case num of
        JStr s \<Rightarrow> Inr s
      | JInt n \<Rightarrow>
          if 10000 \<le> n then
            (case int_truediv n 10000 of
               Inl e \<Rightarrow> Inl e
             | Inr x \<Rightarrow> Inr (format_1f x @ unit_wan))
          else Inr (str_int n)
      | JBool b \<Rightarrow> Inr (py_str str_other (JBool b))
      | JFloat x \<Rightarrow>
          if float_ge_int x 10000 then Inr (format_1f (float_div_pos x 10000) @ unit_wan)
          else Inr (py_str str_other (JFloat x))
      | _ \<Rightarrow> Inl (cmp_type_error num))"

section \<open>The video record and the three metadata calls\<close>

text \<open>
  \<open>video_info\<close> of \<open>parse_bili\<close>: the fields read from the replies are JSON values, the
  counts are the strings \<open>format_number\<close> returned.
\<close>

record video_info =
  title :: json
  upName :: json
  upMid :: json
  upFans :: pystr
  pic :: json
  views :: pystr
  danmaku :: pystr
  likes :: pystr
  coins :: pystr
  favorites :: pystr
  shares :: pystr
  description :: json
  watchingTotal :: pystr
  watchingWeb :: pystr
  cleanedUrl :: pystr
  cid :: json
  bvid :: pystr

definition init_video_info :: "pystr \<Rightarrow> video_info" where
  "init_video_info b =
     \<lparr>title = JStr (lit ''N/A''), upName = JStr (lit ''N/A''), upMid = JNull,
      upFans = lit ''N/A'', pic = JStr (lit ''N/A''), views = lit ''N/A'',
      danmaku = lit ''N/A'', likes = lit ''N/A'', coins = lit ''N/A'',
      favorites = lit ''N/A'', shares = lit ''N/A'', description = JStr (lit ''N/A''),
      watchingTotal = lit ''N/A'', watchingWeb = lit ''N/A'',
      cleanedUrl = lit ''https://www.bilibili.com/video/'' @ b, cid = JNull, bvid = b\<rparr>"

text \<open>
  The network, the interpreter and the console, as \<open>parse_bili\<close> sees them: the reply to
  the short link request, the outcome of \<open>requests.get\<close>, \<open>raise_for_status\<close> and \<open>json()\<close>
  on an API address (the exception one of them raised, an interrupt that arrives while the
  call waits being one, or the decoded value), \<open>str\<close> of a
  float, a list or a dict, and what \<open>sys.stdout\<close> does with a line that holds a character
  outside ASCII: \<open>None\<close> when its encoding has every character of the line, otherwise the
  text of the \<open>UnicodeEncodeError\<close>.
\<close>

record env =
  redirect_get :: "pystr \<Rightarrow> pystr + response"
  api_get :: "pystr \<Rightarrow> exn + json"
  str_other :: "json \<Rightarrow> pystr"
  stdout :: "pystr \<Rightarrow> pystr option"

text \<open>Sequencing: an exception ends the computation; the events so far are kept.\<close>

definition bind_exn :: "exn + 'a \<Rightarrow> ('a \<Rightarrow> exn + 'b) \<Rightarrow> exn + 'b" where
  "bind_exn m f = (case m of Inl e \<Rightarrow> Inl e | Inr x \<Rightarrow> f x)"

definition bind_io ::
  "(exn + 'a) \<times> event list \<Rightarrow> ('a \<Rightarrow> (exn + 'b) \<times> event list) \<Rightarrow> (exn + 'b) \<times> event list" where
  "bind_io m f =
     (case m of
        (Inl e, t) \<Rightarrow> (Inl e, t)
      | (Inr x, t) \<Rightarrow> (case f x of (r, t') \<Rightarrow> (r, t @ t')))"

text \<open>
  \<open>print(s)\<close>: the line is written, or \<open>print\<close> raises because the encoding of
  \<open>sys.stdout\<close> lacks a character of it. A line of ASCII characters is always written:
  the encodings of a console are supersets of ASCII (a console that is closed is outside
  the model).
\<close>

definition py_print :: "env \<Rightarrow> pystr \<Rightarrow> (exn + unit) \<times> event list" where
  "py_print env s =
     (if list_all (\<lambda>c. c < 128) s then (Inr (), [Print s])
      else
        (case stdout env s of
           None \<Rightarrow> (Inr (), [Print s])
         | Some m \<Rightarrow> (Inl (OtherException m), [])))"

text \<open>\<open>format_number(d.get(key, 0))\<close>.\<close>

definition get_number :: "(json \<Rightarrow> pystr) \<Rightarrow> json \<Rightarrow> pystr \<Rightarrow> exn + pystr" where
  "get_number so d key = bind_exn (py_get d key (JInt 0)) (format_number so)"

text \<open>The assignments made when the video reply has \<open>code == 0\<close>, in their order.\<close>

definition view_fields :: "(json \<Rightarrow> pystr) \<Rightarrow> json \<Rightarrow> video_info \<Rightarrow> exn + video_info" where
  "view_fields so view_data vi =
     bind_exn (py_get view_data (lit ''data'') (JObj [])) (\<lambda>data.
     bind_exn (py_get data (lit ''stat'') (JObj [])) (\<lambda>stat.
     bind_exn (py_get data (lit ''title'') (JStr (lit ''N/A''))) (\<lambda>v_title.
     bind_exn (py_get data (lit ''desc'') (JStr (lit ''N/A''))) (\<lambda>v_desc.
     bind_exn (py_get data (lit ''pic'') (JStr (lit ''N/A''))) (\<lambda>v_pic.
     bind_exn (py_get data (lit ''owner'') (JObj [])) (\<lambda>owner1.
     bind_exn (py_get owner1 (lit ''name'') (JStr (lit ''N/A''))) (\<lambda>v_name.
     bind_exn (py_get data (lit ''owner'') (JObj [])) (\<lambda>owner2.
     bind_exn (py_get owner2 (lit ''mid'') JNull) (\<lambda>v_mid.
     bind_exn (py_get data (lit ''cid'') JNull) (\<lambda>v_cid.
     bind_exn (get_number so stat (lit ''view'')) (\<lambda>v_views.
     bind_exn (get_number so stat (lit ''danmaku'')) (\<lambda>v_danmaku.
     bind_exn (get_number so stat (lit ''like'')) (\<lambda>v_likes.
     bind_exn (get_number so stat (lit ''coin'')) (\<lambda>v_coins.
     bind_exn (get_number so stat (lit ''favorite'')) (\<lambda>v_favorites.
     bind_exn (get_number so stat (lit ''share'')) (\<lambda>v_shares.
       Inr (vi\<lparr>title := v_title, description := v_desc, pic := v_pic, upName := v_name,
               upMid := v_mid, cid := v_cid, views := v_views, danmaku := v_danmaku,
               likes := v_likes, coins := v_coins, favorites := v_favorites,
               shares := v_shares\<rparr>)))))))))))))))))"

definition view_api_url :: "pystr \<Rightarrow> pystr" where
  "view_api_url b = lit ''https://api.bilibili.com/x/web-interface/view?bvid='' @ b"

definition fetch_view :: "env \<Rightarrow> video_info \<Rightarrow> (exn + video_info) \<times> event list" where
  "fetch_view env vi =
     (let url = view_api_url (bvid vi) in
      bind_io (py_print env (lit ''Fetching main info: '' @ url)) (\<lambda>u1.
      bind_io (api_get env url, [Get url]) (\<lambda>view_data.
      bind_io (py_get view_data (lit ''code'') JNull, []) (\<lambda>code.
        if py_eq_zero code then (view_fields (str_other env) view_data vi, [])
        else
          bind_io (py_get view_data (lit ''message'') (JStr (lit ''Unknown error'')), []) (\<lambda>msg.
          bind_io (py_print env (lit ''Warning: View API error for '' @ bvid vi @ lit '' - ''
                                 @ py_str (str_other env) msg)) (\<lambda>u2.
            (Inr vi, [])))))))"

definition relation_api_url :: "(json \<Rightarrow> pystr) \<Rightarrow> json \<Rightarrow> pystr" where
  "relation_api_url so mid = lit ''https://api.bilibili.com/x/relation/stat?vmid='' @ py_str so mid"

definition fetch_relation :: "env \<Rightarrow> video_info \<Rightarrow> (exn + video_info) \<times> event list" where
  "fetch_relation env vi =
     (if py_truthy (upMid vi) then
        (let url = relation_api_url (str_other env) (upMid vi) in
         bind_io (py_print env (lit ''Fetching fan count: '' @ url)) (\<lambda>u1.
         bind_io (api_get env url, [Get url]) (\<lambda>relation_data.
         bind_io (py_get relation_data (lit ''code'') JNull, []) (\<lambda>code.
           if py_eq_zero code then
             (bind_exn (py_get relation_data (lit ''data'') (JObj [])) (\<lambda>data.
              bind_exn (get_number (str_other env) data (lit ''follower'')) (\<lambda>fans.
                Inr (vi\<lparr>upFans := fans\<rparr>))), [])
           else
             bind_io (py_get relation_data (lit ''message'') JNull, []) (\<lambda>msg.
             bind_io (py_print env (lit ''Warning: Relation API error for mid ''
                                    @ py_str (str_other env) (upMid vi) @ lit '' - ''
                                    @ py_str (str_other env) msg)) (\<lambda>u2.
               (Inr vi, [])))))))
      else (Inr vi, []))"

definition online_api_url :: "(json \<Rightarrow> pystr) \<Rightarrow> pystr \<Rightarrow> json \<Rightarrow> pystr" where
  "online_api_url so b c =
     lit ''https://api.bilibili.com/x/player/online/total?bvid='' @ b @ lit ''&cid='' @ py_str so c"

text \<open>The two assignments made when the viewer reply has \<open>code == 0\<close> and a true
  \<open>data\<close>.\<close>

definition online_fields :: "(json \<Rightarrow> pystr) \<Rightarrow> json \<Rightarrow> video_info \<Rightarrow> exn + video_info" where
  "online_fields so data vi =
     bind_exn (get_number so data (lit ''total'')) (\<lambda>total.
     bind_exn (py_get data (lit ''web_online'') JNull) (\<lambda>web_online.
     bind_exn
       (if web_online \<noteq> JNull then get_number so data (lit ''web_online'')
        else
          bind_exn (py_get data (lit ''count'') JNull) (\<lambda>cnt.
            if cnt \<noteq> JNull then get_number so data (lit ''count'') else Inr (lit ''N/A'')))
       (\<lambda>web. Inr (vi\<lparr>watchingTotal := total, watchingWeb := web\<rparr>))))"

definition fetch_online :: "env \<Rightarrow> video_info \<Rightarrow> (exn + video_info) \<times> event list" where
  "fetch_online env vi =
     (if py_truthy (cid vi) then
        (let url = online_api_url (str_other env) (bvid vi) (cid vi) in
         bind_io (py_print env (lit ''Fetching online count: '' @ url)) (\<lambda>u1.
         bind_io (api_get env url, [Get url]) (\<lambda>online_data.
         bind_io (py_get online_data (lit ''code'') JNull, []) (\<lambda>code.
         bind_io (py_get online_data (lit ''data'') JNull, []) (\<lambda>data.
           if py_eq_zero code \<and> py_truthy data then
             (online_fields (str_other env) data vi, [])
           else
             bind_io (py_get online_data (lit ''message'') JNull, []) (\<lambda>msg.
             bind_io (py_print env (lit ''Warning: Online API error for bvid '' @ bvid vi
                                    @ lit '' - '' @ py_str (str_other env) msg)) (\<lambda>u2.
               (Inr vi, []))))))))
      else (Inr vi, []))"

text \<open>The body of the \<open>try\<close> statement.\<close>

definition fetch_video_info :: "env \<Rightarrow> pystr \<Rightarrow> (exn + video_info) \<times> event list" where
  "fetch_video_info env b =
     bind_io (fetch_view env (init_video_info b)) (\<lambda>vi.
     bind_io (fetch_relation env vi) (fetch_online env))"

text \<open>The three \<open>except\<close> clauses, tried in their order: what \<open>parse_bili\<close> returns for
  an exception of the \<open>try\<close> body that derives from \<open>Exception\<close>. The clauses catch no
  other exception.\<close>

definition fetch_error_message :: "exn \<Rightarrow> pystr" where
  "fetch_error_message e =
     (case e of
        RequestException m \<Rightarrow> lit ''Error: Network request failed during API call - '' @ m
      | JSONDecodeError m \<Rightarrow> lit ''Error: Failed to decode JSON response from API - '' @ m
      | _ \<Rightarrow> lit ''Error: An unexpected error occurred - '' @ exn_str e)"

section \<open>The output segments\<close>

datatype segment = Text pystr | Image json

text \<open>How a call of \<open>parse_bili\<close> ends: it returns an error string, it returns the tuple
  of segments, or it raises.\<close>

datatype result = ErrorString pystr | Segments "segment list" | Raised exn

text \<open>\<open>s not in ['N/A', '0']\<close>.\<close>

definition known_nonzero :: "pystr \<Rightarrow> bool" where
  "known_nonzero s = (s \<noteq> lit ''N/A'' \<and> s \<noteq> lit ''0'')"

text \<open>The literal pieces of the f-strings, as the source file has them.\<close>

definition fans_label :: pystr where
  "fans_label = [32, 231, 178, 8240, 228, 184, 58, 32]"

definition web_prefix :: pystr where
  "web_prefix = [239, 188, 338]"

definition web_suffix :: pystr where
  "web_suffix = [32, 228, 186, 186, 229, 339, 168, 231, 189, 8216, 233, 161, 181, 231, 171, 175,
                 232, 167, 8218, 231, 339, 8249]"

definition total_prefix :: pystr where
  "total_prefix = [287, 376, 8222, 226, 8364, 226, 8482, 8218, 239, 184, 32, 230, 8364, 187,
                   229, 8230, 177, 32]"

definition total_suffix :: pystr where
  "total_suffix = [32, 228, 186, 186, 229, 339, 168, 232, 167, 8218, 231, 339, 8249]"

definition title_label :: pystr where
  "title_label = [230, 160, 8225, 233, 162, 732, 58, 32]"

definition up_label :: pystr where
  "up_label = [10, 85, 80, 228, 184, 187, 58, 32]"

definition views_label :: pystr where
  "views_label = [287, 376, 8216, 8364, 230, 8217, 173, 230, 8221, 190, 58, 32]"

definition danmaku_label :: pystr where
  "danmaku_label = [32, 287, 376, 8217, 172, 229, 188, 185, 229, 185, 8226, 58, 32]"

definition likes_label :: pystr where
  "likes_label = [10, 287, 376, 8216, 231, 8218, 185, 232, 181, 58, 32]"

definition coins_label :: pystr where
  "coins_label = [32, 287, 376, 8217, 176, 230, 352, 8226, 229, 184, 58, 32]"

definition favorites_label :: pystr where
  "favorites_label = [10, 287, 376, 8220, 230, 8221, 182, 232, 8212, 58, 32]"

definition shares_label :: pystr where
  "shares_label = [32, 287, 376, 8221, 8212, 229, 710, 8224, 228, 186, 171, 58, 32]"

definition description_label :: pystr where
  "description_label = [10, 287, 376, 8220, 231, 174, 8364, 228, 187, 8249, 58, 32]"

definition no_description :: pystr where
  "no_description = [230, 8212, 160]"

definition up_fans_text :: "video_info \<Rightarrow> pystr" where
  "up_fans_text vi = (if known_nonzero (upFans vi) then fans_label @ upFans vi else [])"

definition watching_web_text :: "video_info \<Rightarrow> pystr" where
  "watching_web_text vi =
     (if known_nonzero (watchingWeb vi) then web_prefix @ watchingWeb vi @ web_suffix else [])"

definition watching_total_text :: "video_info \<Rightarrow> pystr" where
  "watching_total_text vi =
     (if known_nonzero (watchingTotal vi)
      then total_prefix @ watchingTotal vi @ total_suffix @ watching_web_text vi else [])"

definition text_to_copy_1 :: "(json \<Rightarrow> pystr) \<Rightarrow> video_info \<Rightarrow> pystr" where
  "text_to_copy_1 so vi =
     py_strip (title_label @ py_str so (title vi) @ up_label @ py_str so (upName vi)
               @ up_fans_text vi)"

definition text_to_copy_2 :: "(json \<Rightarrow> pystr) \<Rightarrow> video_info \<Rightarrow> pystr" where
  "text_to_copy_2 so vi =
     py_strip (views_label @ views vi @ danmaku_label @ danmaku vi
               @ likes_label @ likes vi @ coins_label @ coins vi
               @ favorites_label @ favorites vi @ shares_label @ shares vi
               @ description_label
               @ py_str so (if py_truthy (description vi) then description vi
                            else JStr no_description)
               @ [10] @ watching_total_text vi @ [10] @ cleanedUrl vi)"

definition format_segments :: "(json \<Rightarrow> pystr) \<Rightarrow> video_info \<Rightarrow> segment list" where
  "format_segments so vi = [Text (text_to_copy_1 so vi), Image (pic vi), Text (text_to_copy_2 so vi)]"

section \<open>\<open>parse_bili\<close>\<close>

text \<open>\<open>re.match(r"^[a-zA-Z0-9]+$", s)\<close>: \<open>$\<close> also matches before a newline that ends the
  string.\<close>

definition re_match_alnum :: "pystr \<Rightarrow> bool" where
  "re_match_alnum s =
     (let t = (if s \<noteq> [] \<and> last s = 10 then butlast s else s)
      in t \<noteq> [] \<and> list_all is_alnum t)"

definition short_link_heuristic :: "pystr \<Rightarrow> bool" where
  "short_link_heuristic url_input =
     (py_contains (lit ''b23.tv/'') url_input
      \<or> (\<not> py_startswith url_input (lit ''BV'') \<and> \<not> py_contains (lit ''bilibili.com'') url_input
         \<and> length url_input < 15 \<and> re_match_alnum url_input))"

definition potential_b23_url :: "pystr \<Rightarrow> pystr" where
  "potential_b23_url url_input =
     (if \<not> py_contains (lit ''b23.tv/'') url_input then lit ''https://b23.tv/'' @ url_input
      else url_input)"

text \<open>
  The call of \<open>resolve_b23_url\<close> inside the program. \<open>resolve_b23_url\<close> above gives the
  value the function returns and the lines it prints; each of its prints is the last
  statement before \<open>return None\<close>, and none of its handlers catches what \<open>print\<close> raises,
  so with a console that refuses a line the call raises at that line.
\<close>

fun emit :: "env \<Rightarrow> event list \<Rightarrow> (exn + unit) \<times> event list" where
  "emit env [] = (Inr (), [])"
| "emit env (Get a # es) = (case emit env es of (r, t) \<Rightarrow> (r, Get a # t))"
| "emit env (Print s # es) =
     (case py_print env s of
        (Inl e, t) \<Rightarrow> (Inl e, t)
      | (Inr u, t) \<Rightarrow> (case emit env es of (r, t') \<Rightarrow> (r, t @ t')))"

definition call_resolve :: "env \<Rightarrow> pystr \<Rightarrow> (exn + pystr option) \<times> event list" where
  "call_resolve env short_url_input =
     (case resolve_b23_url (redirect_get env) short_url_input of
        (v, es) \<Rightarrow>
          (case emit env es of
             (Inl e, t) \<Rightarrow> (Inl e, t)
           | (Inr u, t) \<Rightarrow> (Inr v, t)))"

text \<open>
  The branch after the call of \<open>resolve_b23_url\<close>, as a function of the input, of the
  address that was tried and of what the call returned: \<open>Inr\<close> the address to go on with,
  \<open>Inl\<close> the way \<open>parse_bili\<close> ends there, with the error string or with the exception of
  the \<open>print\<close>.
\<close>

definition after_resolve ::
  "env \<Rightarrow> pystr \<Rightarrow> pystr \<Rightarrow> pystr option \<Rightarrow> (result + pystr) \<times> event list" where
  "after_resolve env url_input potential resolved =
     (if resolved \<noteq> None \<and> resolved \<noteq> Some [] then
        (case resolved of
           Some r \<Rightarrow>
             (case py_print env (lit ''Resolved to: '' @ r) of
                (Inl e, t) \<Rightarrow> (Inl (Raised e), t)
              | (Inr u, t) \<Rightarrow> (Inr r, t))
         | None \<Rightarrow> (Inr url_input, []))
      else if py_contains (lit ''b23.tv/'') potential then
        (Inl (ErrorString (lit ''Error: Failed to resolve b23.tv short link: '' @ potential)), [])
      else (Inr url_input, []))"

text \<open>Step 1 of \<open>parse_bili\<close>; no \<open>try\<close> statement is around it.\<close>

definition resolve_step :: "env \<Rightarrow> pystr \<Rightarrow> (result + pystr) \<times> event list" where
  "resolve_step env url_input =
     (if short_link_heuristic url_input then
        (let potential = potential_b23_url url_input in
         case py_print env (lit ''Attempting to resolve short link: '' @ potential) of
           (Inl e, t) \<Rightarrow> (Inl (Raised e), t)
         | (Inr u, t) \<Rightarrow>
             (case call_resolve env potential of
                (Inl e, t') \<Rightarrow> (Inl (Raised e), t @ t')
              | (Inr resolved, t') \<Rightarrow>
                  (case after_resolve env url_input potential resolved of
                     (r, t'') \<Rightarrow> (r, t @ t' @ t''))))
      else (Inr url_input, []))"

definition no_bvid_message :: "pystr \<Rightarrow> pystr \<Rightarrow> pystr" where
  "no_bvid_message processed_url url_input =
     lit ''Error: Could not extract BVID from URL: '' @ processed_url
     @ lit '' (original input: '' @ url_input @ lit '')''"

definition parse_bili :: "env \<Rightarrow> pystr \<Rightarrow> result \<times> event list" where
  "parse_bili env url_input =
     (case resolve_step env url_input of
        (Inl r, t1) \<Rightarrow> (r, t1)
      | (Inr processed_url, t1) \<Rightarrow>
          (case extract_bvid_from_url processed_url of
             None \<Rightarrow> (ErrorString (no_bvid_message processed_url url_input), t1)
           | Some b \<Rightarrow>
               if b = [] then (ErrorString (no_bvid_message processed_url url_input), t1)
               else
                 (case py_print env (lit ''Extracted BVID: '' @ b) of
                    (Inl e, tp) \<Rightarrow> (Raised e, t1 @ tp)
                  | (Inr u, tp) \<Rightarrow>
                      (case fetch_video_info env b of
                         (Inl e, t2) \<Rightarrow>
                           (if is_Exception e then ErrorString (fetch_error_message e)
                            else Raised e,
                            t1 @ tp @ t2)
                       | (Inr vi, t2) \<Rightarrow>
                           (Segments (format_segments (str_other env) vi), t1 @ tp @ t2)))))"

section \<open>UTF-8\<close>

text \<open>
  \<open>s.encode('utf-8')\<close>: one to four octets for a code point; a surrogate (U+D800 to
  U+DFFF) cannot be encoded and the call raises.
\<close>

datatype codec_error = UnicodeEncodeError nat

definition utf8_char :: "nat \<Rightarrow> byte list option" where
  "utf8_char c =
     (if c < 128 then Some [of_nat c]
      else if c < 2048 then Some [of_nat (192 + c div 64), of_nat (128 + c mod 64)]
      else if 55296 \<le> c \<and> c < 57344 then None
      else if c < 65536 then
        Some [of_nat (224 + c div 4096), of_nat (128 + c div 64 mod 64), of_nat (128 + c mod 64)]
      else if c < 1114112 then
        Some [of_nat (240 + c div 262144), of_nat (128 + c div 4096 mod 64),
              of_nat (128 + c div 64 mod 64), of_nat (128 + c mod 64)]
      else None)"

text \<open>The octets of a sequence of two or more: none is below 128.\<close>

definition high_byte :: "byte \<Rightarrow> bool" where
  "high_byte b = (128 \<le> b)"

fun utf8_encode :: "pystr \<Rightarrow> codec_error + byte list" where
  "utf8_encode [] = Inr []"
| "utf8_encode (c # cs) =
     (case utf8_char c of
        None \<Rightarrow> Inl (UnicodeEncodeError c)
      | Some bs \<Rightarrow> (case utf8_encode cs of Inl e \<Rightarrow> Inl e | Inr r \<Rightarrow> Inr (bs @ r)))"

section \<open>The clipboard payload (\<open>_prepare_cf_html\<close>)\<close>

text \<open>The format \<open>:010d\<close>: zeros up to ten characters, the sign first.\<close>

definition format_010d :: "int \<Rightarrow> pystr" where
  "format_010d x =
     (if x < 0 then 45 # replicate (9 - length (str_nat (nat (- x)))) 48 @ str_nat (nat (- x))
      else replicate (10 - length (str_nat (nat x))) 48 @ str_nat (nat x))"

text \<open>The line end of the header: the source writes \<open>\\r\\n\<close> in an ordinary string
  literal, which is a backslash, \<open>r\<close>, a backslash and \<open>n\<close>.\<close>

definition header_eol :: pystr where
  "header_eol = [92, 114, 92, 110]"

definition cf_header :: "pystr \<Rightarrow> pystr \<Rightarrow> pystr \<Rightarrow> pystr \<Rightarrow> pystr" where
  "cf_header start_html end_html start_fragment end_fragment =
     lit ''Version:0.9'' @ header_eol
     @ lit ''StartHTML:'' @ start_html @ header_eol
     @ lit ''EndHTML:'' @ end_html @ header_eol
     @ lit ''StartFragment:'' @ start_fragment @ header_eol
     @ lit ''EndFragment:'' @ end_fragment @ header_eol"

definition wrap_fragment :: "pystr \<Rightarrow> pystr" where
  "wrap_fragment html_content =
     lit ''<html><body>'' @ (lit ''<!--StartFragment-->'' @ html_content @ lit ''<!--EndFragment-->'')
     @ lit ''</body></html>''"

definition prepare_cf_html :: "pystr \<Rightarrow> codec_error + byte list" where
  "prepare_cf_html html_content =
     (let full_html = wrap_fragment html_content;
          dummy_offset = lit ''0000000000''
      in case utf8_encode full_html of
           Inl e \<Rightarrow> Inl e
         | Inr full_html_utf8 \<Rightarrow>
             (case utf8_encode (cf_header dummy_offset dummy_offset dummy_offset dummy_offset) of
                Inl e \<Rightarrow> Inl e
              | Inr header_prefix \<Rightarrow>
                  (let start_html_offset = int (length header_prefix);
                       end_html_offset = start_html_offset + int (length full_html_utf8);
                       start_fragment_offset =
                         start_html_offset + py_find full_html_utf8 (blit ''<!--StartFragment-->'');
                       end_fragment_offset =
                         start_html_offset + py_find full_html_utf8 (blit ''<!--EndFragment-->'')
                         + int (length (blit ''<!--EndFragment-->''))
                   in case utf8_encode
                             (cf_header (format_010d start_html_offset)
                                (format_010d end_html_offset)
                                (format_010d start_fragment_offset)
                                (format_010d end_fragment_offset)) of
                        Inl e \<Rightarrow> Inl e
                      | Inr header \<Rightarrow> Inr (header @ full_html_utf8))))"

section \<open>The clipboard writer (\<open>set_clipboard_text_and_image\<close>)\<close>

text \<open>The markup of a \<open>Text\<close> segment. The source replaces \<open>"\\n"\<close>, the two characters
  backslash and \<open>n\<close>.\<close>

definition text_paragraph :: "pystr \<Rightarrow> pystr" where
  "text_paragraph text0 =
     (let processed_text = py_replace [92, 110] (lit ''<br>'') (py_strip text0)
      in lit ''<p>'' @ processed_text @ lit ''</p>'')"

text \<open>The markup of one segment; \<open>load_image\<close> is a parameter here (it returns the data
  URI, or the empty string).\<close>

definition segment_html :: "(json \<Rightarrow> pystr) \<Rightarrow> segment \<Rightarrow> pystr list" where
  "segment_html load_image seg =
     (case seg of
        Text text0 \<Rightarrow> [text_paragraph text0]
      | Image image_url \<Rightarrow>
          (let loaded_image_src = load_image image_url
           in if loaded_image_src \<noteq> [] then [lit ''<img src='' @ [34] @ loaded_image_src @ [34] @ lit '' />'']
              else []))"

text \<open>What the call leaves: nothing to copy, the data handed to \<open>SetClipboardData\<close>, or an
  exception caught by the handler of the function.\<close>

datatype clipboard_outcome = NoContent | ClipboardData "byte list" | Caught codec_error

definition set_clipboard_text_and_image :: "(json \<Rightarrow> pystr) \<Rightarrow> segment list \<Rightarrow> clipboard_outcome" where
  "set_clipboard_text_and_image load_image segments =
     (let html_contents = concat (map (segment_html load_image) segments)
      in if html_contents = [] then NoContent
         else
           (case prepare_cf_html (concat html_contents) of
              Inl e \<Rightarrow> Caught e
            | Inr cf_html_data \<Rightarrow> ClipboardData cf_html_data))"

section \<open>The resize loop of \<open>load_image\<close>\<close>

definition MAX_IMAGE_SIZE_BYTES :: int where
  "MAX_IMAGE_SIZE_BYTES = 5 * 1024 * 1024"

text \<open>The float the literal \<open>0.8\<close> denotes.\<close>

definition RESIZE_FACTOR :: rat where
  "RESIZE_FACTOR = 3602879701896397 / 4503599627370496"

definition MIN_DIMENSION :: int where
  "MIN_DIMENSION = 100"

text \<open>\<open>n * f\<close> for an integer and a finite float: the integer is converted to a float
  first, which raises when it is beyond the floats; the product is rounded.\<close>

definition int_mul_float :: "int \<Rightarrow> rat \<Rightarrow> exn + pyfloat" where
  "int_mul_float n f =
     (case round_double (of_int n) of
        Finite v \<Rightarrow> Inr (round_double (v * f))
      | _ \<Rightarrow> Inl (OverflowError (lit ''int too large to convert to float'')))"

text \<open>\<open>int(x)\<close>: towards zero.\<close>

definition float_to_int :: "pyfloat \<Rightarrow> exn + int" where
  "float_to_int x =
     (case x of
        Finite v \<Rightarrow> Inr (if 0 \<le> v then \<lfloor>v\<rfloor> else - \<lfloor>- v\<rfloor>)
      | NaN \<Rightarrow> Inl (OtherException (lit ''cannot convert float NaN to integer''))
      | _ \<Rightarrow> Inl (OverflowError (lit ''cannot convert float infinity to integer'')))"

text \<open>The format \<open>:.2f\<close>, for the sizes the loop prints.\<close>

definition format_2f :: "pyfloat \<Rightarrow> pystr" where
  "format_2f x =
     (case x of
        Finite v \<Rightarrow>
          (let t = nat (round_half_even (\<bar>v\<bar> * 100))
           in (if v < 0 then [45] else []) @ str_nat (t div 100) @ [46]
              @ str_nat (t mod 100 div 10) @ str_nat (t mod 10))
      | PosInf \<Rightarrow> lit ''inf''
      | NegInf \<Rightarrow> lit ''-inf''
      | NaN \<Rightarrow> lit ''nan'')"

definition size_mb :: "byte list \<Rightarrow> exn + pystr" where
  "size_mb png_data =
     bind_exn (int_truediv (int (length png_data)) (1024 * 1024)) (\<lambda>x. Inr (format_2f x))"

text \<open>
  The state of the loop: \<open>png_data\<close>, \<open>current_width\<close>, \<open>current_height\<close>, and the lines
  printed so far. \<open>resize_save w h\<close> stands for the PNG encoding of the decoded image
  resized to \<open>w\<close> by \<open>h\<close> (the image library, a parameter of the model).
\<close>

type_synonym loop_state = "byte list \<times> int \<times> int \<times> event list"

definition loop_cond :: "loop_state \<Rightarrow> exn + bool" where
  "loop_cond s =
     (case s of (png_data, current_width, current_height, t) \<Rightarrow>
        if \<not> MAX_IMAGE_SIZE_BYTES < int (length png_data) then Inr False
        else
          bind_exn (int_mul_float current_width RESIZE_FACTOR) (\<lambda>x.
            if \<not> float_ge_int x MIN_DIMENSION then Inr False
            else
              bind_exn (int_mul_float current_height RESIZE_FACTOR) (\<lambda>y.
                Inr (float_ge_int y MIN_DIMENSION))))"

definition loop_body :: "(int \<Rightarrow> int \<Rightarrow> byte list) \<Rightarrow> pystr \<Rightarrow> loop_state \<Rightarrow> exn + loop_state" where
  "loop_body resize_save image_url s =
     (case s of (png_data, current_width, current_height, t) \<Rightarrow>
        bind_exn (size_mb png_data) (\<lambda>mb.
        bind_exn (int_mul_float current_width RESIZE_FACTOR) (\<lambda>x.
        bind_exn (float_to_int x) (\<lambda>w.
        bind_exn (int_mul_float current_height RESIZE_FACTOR) (\<lambda>y.
        bind_exn (float_to_int y) (\<lambda>h.
        bind_exn (size_mb (resize_save w h)) (\<lambda>mb'.
          Inr (resize_save w h, w, h,
               t @ [Print (lit ''Image from '' @ image_url @ lit '' is too large ('' @ mb
                           @ lit '' MB). Resizing...''),
                    Print (lit ''Resized to '' @ str_int w @ lit ''x'' @ str_int h
                           @ lit '', new PNG size: '' @ mb' @ lit '' MB'')]))))))))"

partial_function (option) resize_loop ::
  "(int \<Rightarrow> int \<Rightarrow> byte list) \<Rightarrow> pystr \<Rightarrow> loop_state \<Rightarrow> (exn + loop_state) option" where
  "resize_loop resize_save image_url s =
     (case loop_cond s of
        Inl e \<Rightarrow> Some (Inl e)
      | Inr c \<Rightarrow>
          if c then
            (case loop_body resize_save image_url s of
               Inl e \<Rightarrow> Some (Inl e)
             | Inr s' \<Rightarrow> resize_loop resize_save image_url s')
          else Some (Inr s))"

text \<open>After the loop: a warning when the data is still over the budget; the data is
  used either way.\<close>

definition after_loop :: "pystr \<Rightarrow> loop_state \<Rightarrow> exn + byte list \<times> event list" where
  "after_loop image_url s =
     (case s of (png_data, current_width, current_height, t) \<Rightarrow>
        if MAX_IMAGE_SIZE_BYTES < int (length png_data) then
          bind_exn (size_mb png_data) (\<lambda>mb.
            Inr (png_data,
                 t @ [Print (lit ''Warning: Image from '' @ image_url @ lit '' still too large (''
                             @ mb @ lit '' MB) after resizing. Proceeding.'')]))
        else Inr (png_data, t))"

text \<open>From the first PNG encoding to the data that is base64 encoded: \<open>None\<close> would be a
  loop that does not end.\<close>

definition shrink_to_budget ::
  "(int \<Rightarrow> int \<Rightarrow> byte list) \<Rightarrow> pystr \<Rightarrow> byte list \<Rightarrow> int \<Rightarrow> int
   \<Rightarrow> (exn + byte list \<times> event list) option" where
  "shrink_to_budget resize_save image_url png_data w h =
     (case resize_loop resize_save image_url (png_data, w, h, []) of
        None \<Rightarrow> None
      | Some (Inl e) \<Rightarrow> Some (Inl e)
      | Some (Inr s) \<Rightarrow> Some (after_loop image_url s))"

section \<open>Properties of the resolver\<close>

lemma find_at_single:
  "find_at [c] s = (if c \<in> set s then Some (length (takeWhile (\<lambda>x. x \<noteq> c) s)) else None)"
proof (induction s)
  case Nil
  show ?case by simp
next
  case (Cons a s)
  show ?case
  proof (cases "a = c")
    case True
    then show ?thesis by simp
  next
    case False
    then show ?thesis using Cons by (simp add: prefix_def)
  qed
qed

lemma clean_location_takeWhile:
  "clean_location loc =
     (let l = takeWhile (\<lambda>c. c \<noteq> 63) loc in if l \<noteq> [] \<and> last l = 47 then butlast l else l)"
proof -
  have q: "lit ''?'' = [63]" and s: "lit ''/'' = [47]" by (simp_all add: lit_def)
  have sfx: "\<And>l::pystr. suffix [47] l \<longleftrightarrow> l \<noteq> [] \<and> last l = 47"
  proof -
    fix l :: pystr
    show "suffix [47] l \<longleftrightarrow> l \<noteq> [] \<and> last l = 47"
      by (cases l rule: rev_cases) (auto simp: suffix_def)
  qed
  show ?thesis
  proof (cases "63 \<in> set loc")
    case True
    have tk: "take (length (takeWhile (\<lambda>c. c \<noteq> 63) loc)) loc = takeWhile (\<lambda>c. c \<noteq> 63) loc"
      by (rule takeWhile_eq_take [symmetric])
    from True show ?thesis
      by (simp add: clean_location_def py_find_def find_at_single q s py_endswith_def sfx Let_def tk)
  next
    case False
    then have tw: "takeWhile (\<lambda>c. c \<noteq> 63) loc = loc" by (auto simp: takeWhile_eq_all_conv)
    from False show ?thesis
      by (simp add: clean_location_def py_find_def find_at_single q s py_endswith_def sfx Let_def tw)
  qed
qed




section \<open>Properties of the id extraction\<close>

lemma py_contains_iff: "py_contains sub s \<longleftrightarrow> (\<exists>a b. s = a @ sub @ b)"
proof (induction s)
  case Nil
  show ?case by auto
next
  case (Cons c cs)
  show ?case
  proof
    assume "py_contains sub (c # cs)"
    then consider "prefix sub (c # cs)" | "py_contains sub cs" by auto
    then show "\<exists>a b. c # cs = a @ sub @ b"
    proof cases
      case 1
      then obtain b where "c # cs = sub @ b" by (auto simp: prefix_def)
      then have "c # cs = [] @ sub @ b" by simp
      then show ?thesis by blast
    next
      case 2
      with Cons obtain a b where "cs = a @ sub @ b" by blast
      then have "c # cs = (c # a) @ sub @ b" by simp
      then show ?thesis by blast
    qed
  next
    assume "\<exists>a b. c # cs = a @ sub @ b"
    then obtain a b where ab: "c # cs = a @ sub @ b" by blast
    show "py_contains sub (c # cs)"
    proof (cases a)
      case Nil
      with ab have "prefix sub (c # cs)" by (simp add: prefix_def)
      then show ?thesis by simp
    next
      case (Cons x a')
      with ab have "cs = a' @ sub @ b" by simp
      with Cons.IH have "py_contains sub cs" by blast
      then show ?thesis by simp
    qed
  qed
qed

lemma py_contains_mid: "py_contains sub (a @ sub @ b)"
  by (auto simp: py_contains_iff)

lemma match_bv_here_Some:
  "match_bv_here s = Some m \<longleftrightarrow>
     (\<exists>rest. s = 66 # 86 # rest \<and> takeWhile is_alnum rest \<noteq> [] \<and> m = 66 # 86 # takeWhile is_alnum rest)"
  by (auto simp: match_bv_here_def split: list.splits)

lemma match_bv_here_None:
  "match_bv_here s = None \<longleftrightarrow> \<not> (\<exists>c rest. s = 66 # 86 # c # rest \<and> is_alnum c)"
proof -
  have "\<And>rest. takeWhile is_alnum rest \<noteq> [] \<longleftrightarrow> (\<exists>c r. rest = c # r \<and> is_alnum c)"
    by (case_tac rest) auto
  then show ?thesis
    by (auto simp: match_bv_here_def split: list.splits)
qed

lemma re_search_bv_None:
  "re_search_bv s = None \<longleftrightarrow> \<not> (\<exists>pre c suf. s = pre @ 66 # 86 # c # suf \<and> is_alnum c)"
proof (induction s)
  case Nil
  show ?case by simp
next
  case (Cons x xs)
  show ?case
  proof (cases "match_bv_here (x # xs)")
    case (Some m)
    then obtain rest where r: "x # xs = 66 # 86 # rest" "takeWhile is_alnum rest \<noteq> []"
      by (auto simp: match_bv_here_Some)
    then obtain c r' where "rest = c # r'" "is_alnum c" by (cases rest) (auto split: if_splits)
    with r have "x # xs = [] @ 66 # 86 # c # r' \<and> is_alnum c" by simp
    then have "\<exists>pre c suf. x # xs = pre @ 66 # 86 # c # suf \<and> is_alnum c" by blast
    with Some show ?thesis by simp
  next
    case None
    have "(\<exists>pre c suf. x # xs = pre @ 66 # 86 # c # suf \<and> is_alnum c)
          \<longleftrightarrow> (\<exists>pre c suf. xs = pre @ 66 # 86 # c # suf \<and> is_alnum c)"
    proof
      assume "\<exists>pre c suf. x # xs = pre @ 66 # 86 # c # suf \<and> is_alnum c"
      then obtain pre c suf where p: "x # xs = pre @ 66 # 86 # c # suf" "is_alnum c" by blast
      show "\<exists>pre c suf. xs = pre @ 66 # 86 # c # suf \<and> is_alnum c"
      proof (cases pre)
        case Nil
        with p None show ?thesis by (simp add: match_bv_here_None)
      next
        case (Cons y pre')
        with p have "xs = pre' @ 66 # 86 # c # suf" by simp
        with p show ?thesis by blast
      qed
    next
      assume "\<exists>pre c suf. xs = pre @ 66 # 86 # c # suf \<and> is_alnum c"
      then obtain pre c suf where "xs = pre @ 66 # 86 # c # suf" "is_alnum c" by blast
      then have "x # xs = (x # pre) @ 66 # 86 # c # suf \<and> is_alnum c" by simp
      then show "\<exists>pre c suf. x # xs = pre @ 66 # 86 # c # suf \<and> is_alnum c" by blast
    qed
    with None Cons show ?thesis by simp
  qed
qed

lemma re_search_bv_Some:
  "re_search_bv s = Some m \<Longrightarrow>
     \<exists>pre body suf. s = pre @ 66 # 86 # body @ suf \<and> m = 66 # 86 # body \<and> body \<noteq> []
        \<and> list_all is_alnum body \<and> (suf = [] \<or> \<not> is_alnum (hd suf))
        \<and> re_search_bv (pre @ [66]) = None"
proof (induction s)
  case Nil
  then show ?case by simp
next
  case (Cons x xs)
  show ?case
  proof (cases "match_bv_here (x # xs)")
    case (Some m')
    with Cons.prems have mm: "m' = m" by simp
    from Some obtain rest where r: "x # xs = 66 # 86 # rest" "takeWhile is_alnum rest \<noteq> []"
      "m' = 66 # 86 # takeWhile is_alnum rest"
      by (auto simp: match_bv_here_Some)
    let ?body = "takeWhile is_alnum rest" and ?suf = "dropWhile is_alnum rest"
    have 1: "x # xs = [] @ 66 # 86 # ?body @ ?suf" using r by simp
    have 2: "list_all is_alnum ?body" by (simp add: list_all_iff) (meson set_takeWhileD)
    have 3: "?suf = [] \<or> \<not> is_alnum (hd ?suf)" by (metis hd_dropWhile)
    have 4: "re_search_bv ([] @ [66]) = None" by (simp add: match_bv_here_def)
    from 1 2 3 4 r mm show ?thesis by blast
  next
    case None
    with Cons.prems have "re_search_bv xs = Some m" by simp
    from Cons.IH[OF this] obtain pre body suf where
      p: "xs = pre @ 66 # 86 # body @ suf" "m = 66 # 86 # body" "body \<noteq> []"
         "list_all is_alnum body" "suf = [] \<or> \<not> is_alnum (hd suf)" "re_search_bv (pre @ [66]) = None"
      by blast
    have 1: "x # xs = (x # pre) @ 66 # 86 # body @ suf" using p by simp
    have "match_bv_here ((x # pre) @ [66]) = None"
    proof (rule ccontr)
      assume "match_bv_here ((x # pre) @ [66]) \<noteq> None"
      then obtain c rest where c: "(x # pre) @ [66] = 66 # 86 # c # rest" "is_alnum c"
        by (auto simp: match_bv_here_None)
      then have "\<exists>r. x # xs = 66 # 86 # c # r"
        using p(1) by (cases rest rule: rev_cases) auto
      with c None show False by (auto simp: match_bv_here_None)
    qed
    then have 2: "re_search_bv ((x # pre) @ [66]) = None" using p by simp
    from 1 2 p show ?thesis by blast
  qed
qed

lemma lit_BV: "lit ''BV'' = [66, 86]" and lit_B: "lit ''B'' = [66]"
  by (simp_all add: lit_def)

lemma resolve_b23_url_gets:
  "Get a \<in> set (snd (resolve_b23_url rg s)) \<Longrightarrow> a = b23_target s"
  by (auto simp: resolve_b23_url_def Let_def split: if_splits sum.splits option.splits)

lemma py_print_ascii: "list_all (\<lambda>c. c < 128) s \<Longrightarrow> py_print env s = (Inr (), [Print s])"
  by (simp add: py_print_def)

lemma py_print_cases:
  "py_print env s = (Inr (), [Print s]) \<or> (\<exists>m. py_print env s = (Inl (OtherException m), []))"
  by (simp add: py_print_def split: option.splits)

lemma py_print_no_get: "Get a \<notin> set (snd (py_print env s))"
  using py_print_cases[of env s] by auto

lemma py_print_api_get [simp]: "py_print (env\<lparr>api_get := g\<rparr>) s = py_print env s"
  by (simp add: py_print_def)

lemma py_print_writes: "\<forall>s. stdout env s = None \<Longrightarrow> py_print env s = (Inr (), [Print s])"
  by (simp add: py_print_def)

lemma emit_gets: "Get a \<in> set (snd (emit env es)) \<Longrightarrow> Get a \<in> set es"
proof (induction env es rule: emit.induct)
  case (1 env)
  then show ?case by simp
next
  case (2 env b es)
  then show ?case by (cases "emit env es") auto
next
  case (3 env s es)
  then show ?case
    using py_print_cases[of env s] by (cases "emit env es") auto
qed

lemma emit_api_get [simp]: "emit (env\<lparr>api_get := g\<rparr>) es = emit env es"
proof (induction es)
  case Nil
  show ?case by simp
next
  case (Cons a es)
  then show ?case by (cases a) (simp_all split: prod.splits sum.splits)
qed

lemma emit_writes: "\<forall>s. stdout env s = None \<Longrightarrow> emit env es = (Inr (), es)"
  by (induction env es rule: emit.induct) (simp_all add: py_print_writes)

lemma call_resolve_gets:
  "Get a \<in> set (snd (call_resolve env s)) \<Longrightarrow> a = b23_target s"
proof -
  assume g: "Get a \<in> set (snd (call_resolve env s))"
  obtain v es where r: "resolve_b23_url (redirect_get env) s = (v, es)"
    by (cases "resolve_b23_url (redirect_get env) s") auto
  obtain x t where e: "emit env es = (x, t)" by (cases "emit env es") auto
  from g r e have "Get a \<in> set (snd (emit env es))"
    by (cases x) (simp_all add: call_resolve_def)
  then have "Get a \<in> set (snd (resolve_b23_url (redirect_get env) s))"
    using emit_gets r by fastforce
  then show ?thesis by (rule resolve_b23_url_gets)
qed

lemma call_resolve_api_get [simp]: "call_resolve (env\<lparr>api_get := g\<rparr>) s = call_resolve env s"
  by (simp add: call_resolve_def)

lemma call_resolve_writes:
  "\<forall>s. stdout env s = None \<Longrightarrow>
     call_resolve env a = (Inr (fst (resolve_b23_url (redirect_get env) a)),
                           snd (resolve_b23_url (redirect_get env) a))"
  by (cases "resolve_b23_url (redirect_get env) a") (simp add: call_resolve_def emit_writes)

lemma after_resolve_no_get: "Get a \<notin> set (snd (after_resolve env u p r))"
proof (cases r)
  case None
  then show ?thesis by (simp add: after_resolve_def)
next
  case (Some x)
  then show ?thesis
    using py_print_cases[of env "lit ''Resolved to: '' @ x"]
    by (auto simp: after_resolve_def)
qed

lemma after_resolve_api_get [simp]:
  "after_resolve (env\<lparr>api_get := g\<rparr>) u p r = after_resolve env u p r"
  by (cases r) (simp_all add: after_resolve_def)

lemma after_resolve_error:
  "fst (after_resolve env u p r) = Inl (ErrorString err) \<Longrightarrow>
     err = lit ''Error: Failed to resolve b23.tv short link: '' @ p"
proof (cases r)
  case None
  then show "fst (after_resolve env u p r) = Inl (ErrorString err) \<Longrightarrow> ?thesis"
    by (auto simp: after_resolve_def split: if_splits)
next
  case (Some x)
  then show "fst (after_resolve env u p r) = Inl (ErrorString err) \<Longrightarrow> ?thesis"
    using py_print_cases[of env "lit ''Resolved to: '' @ x"]
    by (auto simp: after_resolve_def split: if_splits)
qed

lemma after_resolve_no_segments: "fst (after_resolve env u p r) \<noteq> Inl (Segments segs)"
proof (cases r)
  case None
  then show ?thesis by (auto simp: after_resolve_def split: if_splits)
next
  case (Some x)
  then show ?thesis
    using py_print_cases[of env "lit ''Resolved to: '' @ x"]
    by (auto simp: after_resolve_def split: if_splits)
qed

text \<open>The short link step, one case after the other.\<close>

lemma resolve_step_cases:
  assumes "short_link_heuristic u"
  obtains (attempt) e where
      "py_print env (lit ''Attempting to resolve short link: '' @ potential_b23_url u) = (Inl e, [])"
      "resolve_step env u = (Inl (Raised e), [])"
  | (call) e t' where
      "py_print env (lit ''Attempting to resolve short link: '' @ potential_b23_url u)
         = (Inr (), [Print (lit ''Attempting to resolve short link: '' @ potential_b23_url u)])"
      "call_resolve env (potential_b23_url u) = (Inl e, t')"
      "resolve_step env u
         = (Inl (Raised e),
            [Print (lit ''Attempting to resolve short link: '' @ potential_b23_url u)] @ t')"
  | (branch) resolved t' where
      "py_print env (lit ''Attempting to resolve short link: '' @ potential_b23_url u)
         = (Inr (), [Print (lit ''Attempting to resolve short link: '' @ potential_b23_url u)])"
      "call_resolve env (potential_b23_url u) = (Inr resolved, t')"
      "resolve_step env u
         = (fst (after_resolve env u (potential_b23_url u) resolved),
            [Print (lit ''Attempting to resolve short link: '' @ potential_b23_url u)] @ t'
            @ snd (after_resolve env u (potential_b23_url u) resolved))"
proof -
  let ?line = "lit ''Attempting to resolve short link: '' @ potential_b23_url u"
  from py_print_cases[of env ?line] show ?thesis
  proof
    assume p: "py_print env ?line = (Inr (), [Print ?line])"
    obtain c t' where c: "call_resolve env (potential_b23_url u) = (c, t')"
      by (cases "call_resolve env (potential_b23_url u)") auto
    show ?thesis
    proof (cases c)
      case (Inl e)
      with assms p c have "resolve_step env u = (Inl (Raised e), [Print ?line] @ t')"
        by (simp add: resolve_step_def Let_def)
      with p c Inl show ?thesis using call by blast
    next
      case (Inr resolved)
      with assms p c have "resolve_step env u
         = (fst (after_resolve env u (potential_b23_url u) resolved),
            [Print ?line] @ t' @ snd (after_resolve env u (potential_b23_url u) resolved))"
        by (simp add: resolve_step_def Let_def split: prod.splits)
      with p c Inr show ?thesis using branch by blast
    qed
  next
    assume "\<exists>m. py_print env ?line = (Inl (OtherException m), [])"
    then obtain m where p: "py_print env ?line = (Inl (OtherException m), [])" by blast
    with assms have "resolve_step env u = (Inl (Raised (OtherException m)), [])"
      by (simp add: resolve_step_def Let_def)
    with p show ?thesis using attempt by blast
  qed
qed

lemma resolve_step_plain: "\<not> short_link_heuristic u \<Longrightarrow> resolve_step env u = (Inr u, [])"
  by (simp add: resolve_step_def)

lemma resolve_step_gets:
  "Get a \<in> set (snd (resolve_step env u)) \<Longrightarrow> a = b23_target (potential_b23_url u)"
proof (cases "short_link_heuristic u")
  case False
  then show "Get a \<in> set (snd (resolve_step env u)) \<Longrightarrow> ?thesis" by (simp add: resolve_step_plain)
next
  case True
  assume g: "Get a \<in> set (snd (resolve_step env u))"
  from True show ?thesis
  proof (cases rule: resolve_step_cases[where env = env])
    case (attempt e)
    with g show ?thesis by simp
  next
    case (call e t')
    with g have "Get a \<in> set (snd (call_resolve env (potential_b23_url u)))" by simp
    then show ?thesis by (rule call_resolve_gets)
  next
    case (branch resolved t')
    with g have "Get a \<in> set (snd (call_resolve env (potential_b23_url u)))"
      by (simp add: after_resolve_no_get)
    then show ?thesis by (rule call_resolve_gets)
  qed
qed

lemma resolve_step_error:
  assumes "fst (resolve_step env u) = Inl (ErrorString err)"
  shows "err = lit ''Error: Failed to resolve b23.tv short link: '' @ potential_b23_url u"
proof (cases "short_link_heuristic u")
  case False
  with assms show ?thesis by (simp add: resolve_step_plain)
next
  case True
  then show ?thesis
  proof (cases rule: resolve_step_cases[where env = env])
    case (attempt e)
    with assms show ?thesis by simp
  next
    case (call e t')
    with assms show ?thesis by simp
  next
    case (branch resolved t')
    with assms show ?thesis by (simp add: after_resolve_error)
  qed
qed

lemma resolve_step_no_segments: "fst (resolve_step env u) \<noteq> Inl (Segments segs)"
proof (cases "short_link_heuristic u")
  case False
  then show ?thesis by (simp add: resolve_step_plain)
next
  case True
  then show ?thesis
  proof (cases rule: resolve_step_cases[where env = env])
    case (attempt e)
    then show ?thesis by simp
  next
    case (call e t')
    then show ?thesis by simp
  next
    case (branch resolved t')
    then show ?thesis by (simp add: after_resolve_no_segments)
  qed
qed

text \<open>With a console that writes every line the short link step does not raise.\<close>

lemma resolve_step_writes:
  assumes "\<forall>s. stdout env s = None"
  shows "fst (resolve_step env u) \<noteq> Inl (Raised e)"
proof (cases "short_link_heuristic u")
  case False
  then show ?thesis by (simp add: resolve_step_plain)
next
  case True
  let ?r = "fst (resolve_b23_url (redirect_get env) (potential_b23_url u))"
  have a: "fst (after_resolve env u (potential_b23_url u) ?r) \<noteq> Inl (Raised e)"
    by (cases ?r) (auto simp: after_resolve_def py_print_writes[OF assms])
  from True show ?thesis
  proof (cases rule: resolve_step_cases[where env = env])
    case (attempt e')
    then show ?thesis by (simp add: py_print_writes[OF assms])
  next
    case (call e' t')
    then show ?thesis by (simp add: call_resolve_writes[OF assms])
  next
    case (branch resolved t')
    with a show ?thesis by (simp add: call_resolve_writes[OF assms])
  qed
qed

lemma potential_contains: "py_contains u (a @ potential_b23_url u)"
proof (cases "py_contains (lit ''b23.tv/'') u")
  case True
  then have "a @ potential_b23_url u = a @ u @ []" by (simp add: potential_b23_url_def)
  then show ?thesis by (metis py_contains_mid)
next
  case False
  then have "a @ potential_b23_url u = (a @ lit ''https://b23.tv/'') @ u @ []"
    by (simp add: potential_b23_url_def)
  then show ?thesis by (metis py_contains_mid)
qed

lemma resolve_step_api_get [simp]:
  "resolve_step (env\<lparr>api_get := g\<rparr>) u = resolve_step env u"
  by (simp add: resolve_step_def Let_def split: prod.splits sum.splits)

lemma parse_bili_raises: "fst (resolve_step env u) = Inl r \<Longrightarrow> fst (parse_bili env u) = r"
  by (cases "resolve_step env u") (simp add: parse_bili_def)

lemma parse_bili_no_id:
  assumes "\<forall>p. fst (resolve_step env u) = Inr p \<longrightarrow> extract_bvid_from_url p = None"
    and "\<forall>e. fst (resolve_step env u) \<noteq> Inl (Raised e)"
  shows "(\<exists>msg. fst (parse_bili env u) = ErrorString msg \<and> py_contains u msg)
         \<and> snd (parse_bili env u) = snd (resolve_step env u)
         \<and> (\<forall>g. parse_bili (env\<lparr>api_get := g\<rparr>) u = parse_bili env u)"
proof (cases "resolve_step env u")
  case (Pair r t1)
  show ?thesis
  proof (cases r)
    case (Inl res)
    with Pair assms(2) resolve_step_no_segments[of env u] obtain err where
      res: "res = ErrorString err" by (cases res) auto
    with Pair Inl have "err = lit ''Error: Failed to resolve b23.tv short link: '' @ potential_b23_url u"
      using resolve_step_error[of env u err] by simp
    then have "py_contains u err" by (simp add: potential_contains)
    with Pair Inl res show ?thesis by (simp add: parse_bili_def)
  next
    case (Inr p)
    with Pair assms have n: "extract_bvid_from_url p = None" by simp
    have "py_contains u (no_bvid_message p u)"
      unfolding no_bvid_message_def
      using py_contains_mid[of u "lit ''Error: Could not extract BVID from URL: '' @ p @ lit '' (original input: ''" "lit '')''"]
      by simp
    with Pair Inr n show ?thesis by (simp add: parse_bili_def)
  qed
qed




section \<open>Properties of the short link step\<close>

lemma potential_is_short_link: "py_contains (lit ''b23.tv/'') (potential_b23_url u)"
proof (cases "py_contains (lit ''b23.tv/'') u")
  case True
  then show ?thesis by (simp add: potential_b23_url_def)
next
  case False
  have "lit ''https://b23.tv/'' = lit ''https://'' @ lit ''b23.tv/''" by (simp add: lit_def)
  then have "potential_b23_url u = lit ''https://'' @ lit ''b23.tv/'' @ u"
    using False by (simp add: potential_b23_url_def)
  then show ?thesis by (metis py_contains_mid)
qed

lemma call_resolve_value:
  "fst (call_resolve env a) = Inr v \<Longrightarrow> fst (resolve_b23_url (redirect_get env) a) = v"
proof -
  assume c: "fst (call_resolve env a) = Inr v"
  obtain w es where r: "resolve_b23_url (redirect_get env) a = (w, es)"
    by (cases "resolve_b23_url (redirect_get env) a") auto
  obtain x t where e: "emit env es = (x, t)" by (cases "emit env es") auto
  from c r e show ?thesis by (cases x) (simp_all add: call_resolve_def)
qed



section \<open>Properties of the metadata calls and of the output\<close>

lemma py_strip_id:
  assumes "s \<noteq> []" "\<not> py_isspace (hd s)" "\<not> py_isspace (last s)"
  shows "py_strip s = s"
proof -
  from assms have 1: "dropWhile py_isspace s = s" by (cases s) auto
  from assms have "rev s \<noteq> []" "\<not> py_isspace (hd (rev s))" by (simp_all add: hd_rev)
  then have 2: "dropWhile py_isspace (rev s) = rev s" by (cases "rev s") auto
  show ?thesis by (simp add: py_strip_def 1 2)
qed

lemma alnum_not_space: "is_alnum c \<Longrightarrow> \<not> py_isspace c"
  by (auto simp: is_alnum_def py_isspace_def)

lemma extract_bvid_last:
  assumes "extract_bvid_from_url p = Some b"
  shows "b \<noteq> [] \<and> is_alnum (last b)"
proof -
  from assms have "re_search_bv p = Some b"
    by (simp add: extract_bvid_from_url_def split: if_splits)
  from re_search_bv_Some[OF this] obtain body where
    b: "b = 66 # 86 # body" "body \<noteq> []" "list_all is_alnum body" by blast
  then have "last b = last body" by simp
  moreover have "last body \<in> set body" using b by simp
  ultimately show ?thesis using b by (auto simp: list_all_iff)
qed

lemma py_get_obj [simp]:
  "py_get (JObj kvs) key dflt = Inr (case map_of kvs key of Some v \<Rightarrow> v | None \<Rightarrow> dflt)"
  by (simp add: py_get_def)

lemma bind_exn_simps [simp]:
  "bind_exn (Inl e) f = Inl e" "bind_exn (Inr x) f = f x"
  by (simp_all add: bind_exn_def)

lemma bind_io_simps [simp]:
  "bind_io (Inl e, t) f = (Inl e, t)"
  "bind_io (Inr x, t) f = (fst (f x), t @ snd (f x))"
  by (simp_all add: bind_io_def split: prod.splits)

lemma fetch_relation_skip [simp]: "\<not> py_truthy (upMid vi) \<Longrightarrow> fetch_relation env vi = (Inr vi, [])"
  by (simp add: fetch_relation_def)

lemma fetch_online_skip [simp]: "\<not> py_truthy (cid vi) \<Longrightarrow> fetch_online env vi = (Inr vi, [])"
  by (simp add: fetch_online_def)

lemma alnum_ascii: "is_alnum c \<Longrightarrow> c < 128"
  by (auto simp: is_alnum_def)

lemma extract_bvid_ascii:
  assumes "extract_bvid_from_url p = Some b"
  shows "list_all (\<lambda>c. c < 128) b"
proof -
  from assms have "re_search_bv p = Some b"
    by (simp add: extract_bvid_from_url_def split: if_splits)
  from re_search_bv_Some[OF this] obtain body where
    b: "b = 66 # 86 # body" "list_all is_alnum body" by blast
  then show ?thesis by (auto simp: list_all_iff dest: alnum_ascii)
qed

text \<open>The lines that hold a video id and fixed text are ASCII, so they are written.\<close>

lemma extracted_line_prints:
  assumes "list_all (\<lambda>c. c < 128) b"
  shows "py_print env (lit ''Extracted BVID: '' @ b) = (Inr (), [Print (lit ''Extracted BVID: '' @ b)])"
proof -
  have "list_all (\<lambda>c. c < 128) (lit ''Extracted BVID: '')" by (simp add: lit_def)
  with assms show ?thesis by (simp add: py_print_ascii)
qed

lemma fetching_line_prints:
  assumes "list_all (\<lambda>c. c < 128) b"
  shows "py_print env (lit ''Fetching main info: '' @ view_api_url b)
           = (Inr (), [Print (lit ''Fetching main info: '' @ view_api_url b)])"
proof -
  have "list_all (\<lambda>c. c < 128) (lit ''Fetching main info: '')"
    "list_all (\<lambda>c. c < 128) (lit ''https://api.bilibili.com/x/web-interface/view?bvid='')"
    by (simp_all add: lit_def)
  with assms show ?thesis by (simp add: py_print_ascii view_api_url_def)
qed

lemma fetch_view_nonzero:
  assumes "api_get env (view_api_url (bvid vi)) = Inr (JObj kvs)"
    and "map_of kvs (lit ''code'') = Some c" and "\<not> py_eq_zero c"
    and "list_all (\<lambda>c. c < 128) (bvid vi)"
  shows "fetch_view env vi =
           (case py_print env
                   (lit ''Warning: View API error for '' @ bvid vi @ lit '' - ''
                    @ py_str (str_other env)
                        (case map_of kvs (lit ''message'') of Some m \<Rightarrow> m
                         | None \<Rightarrow> JStr (lit ''Unknown error''))) of
              (r, t) \<Rightarrow>
                (case r of Inl e \<Rightarrow> Inl e | Inr u \<Rightarrow> Inr vi,
                 [Print (lit ''Fetching main info: '' @ view_api_url (bvid vi)),
                  Get (view_api_url (bvid vi))] @ t))"
  using assms
  by (simp add: fetch_view_def Let_def fetching_line_prints bind_io_def
      split: prod.splits sum.splits)

lemma init_fields [simp]:
  "bvid (init_video_info b) = b" "upMid (init_video_info b) = JNull" "cid (init_video_info b) = JNull"
  "pic (init_video_info b) = JStr (lit ''N/A'')"
  by (simp_all add: init_video_info_def)

lemma known_nonzero_NA [simp]: "\<not> known_nonzero (lit ''N/A'')"
  by (simp add: known_nonzero_def)

lemma text_1_init:
  "text_to_copy_1 so (init_video_info b) = title_label @ lit ''N/A'' @ up_label @ lit ''N/A''"
proof -
  have "text_to_copy_1 so (init_video_info b)
        = py_strip (title_label @ lit ''N/A'' @ up_label @ lit ''N/A'')"
    by (simp add: text_to_copy_1_def up_fans_text_def init_video_info_def py_str_def)
  also have "\<dots> = title_label @ lit ''N/A'' @ up_label @ lit ''N/A''"
    by (rule py_strip_id) (simp_all add: title_label_def up_label_def lit_def py_isspace_def)
  finally show ?thesis .
qed

lemma text_2_init:
  assumes "b \<noteq> []" "is_alnum (last b)"
  shows "text_to_copy_2 so (init_video_info b) =
     views_label @ lit ''N/A'' @ danmaku_label @ lit ''N/A'' @ likes_label @ lit ''N/A''
     @ coins_label @ lit ''N/A'' @ favorites_label @ lit ''N/A'' @ shares_label @ lit ''N/A''
     @ description_label @ lit ''N/A'' @ [10] @ [10] @ lit ''https://www.bilibili.com/video/'' @ b"
proof -
  let ?s = "views_label @ lit ''N/A'' @ danmaku_label @ lit ''N/A'' @ likes_label @ lit ''N/A''
     @ coins_label @ lit ''N/A'' @ favorites_label @ lit ''N/A'' @ shares_label @ lit ''N/A''
     @ description_label @ lit ''N/A'' @ [10] @ [10] @ lit ''https://www.bilibili.com/video/'' @ b"
  have na: "lit ''N/A'' \<noteq> []" by (simp add: lit_def)
  have "text_to_copy_2 so (init_video_info b) = py_strip ?s"
    by (simp add: text_to_copy_2_def watching_total_text_def init_video_info_def py_str_def na)
  also have "\<dots> = ?s"
  proof (rule py_strip_id)
    show "?s \<noteq> []" by (simp add: views_label_def)
    show "\<not> py_isspace (hd ?s)" by (simp add: views_label_def py_isspace_def)
    have "last ?s = last b" using assms by simp
    then show "\<not> py_isspace (last ?s)" using assms alnum_not_space by simp
  qed
  finally show ?thesis .
qed

lemma parse_bili_fetched:
  assumes "fst (resolve_step env u) = Inr p" "extract_bvid_from_url p = Some b"
  shows "parse_bili env u =
           (case fst (fetch_video_info env b) of
              Inl e \<Rightarrow> if is_Exception e then ErrorString (fetch_error_message e) else Raised e
            | Inr vi \<Rightarrow> Segments (format_segments (str_other env) vi),
            snd (resolve_step env u) @ [Print (lit ''Extracted BVID: '' @ b)]
            @ snd (fetch_video_info env b))"
proof -
  from assms(2) have b: "b \<noteq> []" using extract_bvid_last by blast
  note l = extracted_line_prints[OF extract_bvid_ascii[OF assms(2)], of env]
  from assms b l show ?thesis
    by (cases "resolve_step env u"; cases "fetch_video_info env b")
       (simp add: parse_bili_def split: sum.splits)
qed

text \<open>
  Claim C9. Let the video reply be a JSON object whose \<open>code\<close> is not zero. When the
  warning line can be written, \<open>parse_bili\<close> prints it, sends no further request (the
  uploader id and the content id stay \<open>None\<close>), and returns the three segments built from
  the record with every field at its initial value. When \<open>print\<close> raises on the warning
  line, the handler of the \<open>try\<close> statement catches the exception and \<open>parse_bili\<close> returns
  the error string for an unexpected error.
\<close>

theorem view_error_continues:
  assumes "fst (resolve_step env u) = Inr p"
    and "extract_bvid_from_url p = Some b"
    and "api_get env (view_api_url b) = Inr (JObj kvs)"
    and "map_of kvs (lit ''code'') = Some c"
    and "\<not> py_eq_zero c"
  shows "(fst (py_print env
                 (lit ''Warning: View API error for '' @ b @ lit '' - ''
                  @ py_str (str_other env)
                      (case map_of kvs (lit ''message'') of Some m \<Rightarrow> m
                       | None \<Rightarrow> JStr (lit ''Unknown error'')))) = Inr () \<longrightarrow>
          fetch_video_info env b =
           (Inr (init_video_info b),
            [Print (lit ''Fetching main info: '' @ view_api_url b),
             Get (view_api_url b),
             Print (lit ''Warning: View API error for '' @ b @ lit '' - ''
                    @ py_str (str_other env)
                        (case map_of kvs (lit ''message'') of Some m \<Rightarrow> m
                         | None \<Rightarrow> JStr (lit ''Unknown error'')))])
          \<and> parse_bili env u =
           (Segments
              [Text (title_label @ lit ''N/A'' @ up_label @ lit ''N/A''),
               Image (JStr (lit ''N/A'')),
               Text (views_label @ lit ''N/A'' @ danmaku_label @ lit ''N/A'' @ likes_label
                     @ lit ''N/A'' @ coins_label @ lit ''N/A'' @ favorites_label @ lit ''N/A''
                     @ shares_label @ lit ''N/A'' @ description_label @ lit ''N/A'' @ [10] @ [10]
                     @ lit ''https://www.bilibili.com/video/'' @ b)],
            snd (resolve_step env u)
            @ [Print (lit ''Extracted BVID: '' @ b),
               Print (lit ''Fetching main info: '' @ view_api_url b),
               Get (view_api_url b),
               Print (lit ''Warning: View API error for '' @ b @ lit '' - ''
                      @ py_str (str_other env)
                          (case map_of kvs (lit ''message'') of Some m \<Rightarrow> m
                           | None \<Rightarrow> JStr (lit ''Unknown error'')))]))
       \<and> (\<forall>e. fst (py_print env
                 (lit ''Warning: View API error for '' @ b @ lit '' - ''
                  @ py_str (str_other env)
                      (case map_of kvs (lit ''message'') of Some m \<Rightarrow> m
                       | None \<Rightarrow> JStr (lit ''Unknown error'')))) = Inl e \<longrightarrow>
            parse_bili env u =
              (ErrorString (lit ''Error: An unexpected error occurred - '' @ exn_str e),
               snd (resolve_step env u)
               @ [Print (lit ''Extracted BVID: '' @ b),
                  Print (lit ''Fetching main info: '' @ view_api_url b),
                  Get (view_api_url b)]))"
proof (intro conjI impI allI)
  let ?w = "lit ''Warning: View API error for '' @ b @ lit '' - ''
                  @ py_str (str_other env)
                      (case map_of kvs (lit ''message'') of Some m \<Rightarrow> m
                       | None \<Rightarrow> JStr (lit ''Unknown error''))"
  from assms(2) have b: "b \<noteq> []" "is_alnum (last b)" using extract_bvid_last by blast+
  note asc = extract_bvid_ascii[OF assms(2)]
  note v = fetch_view_nonzero[of env "init_video_info b" kvs c, simplified, OF assms(3-5) asc]
  {
    assume ok: "fst (py_print env ?w) = Inr ()"
    with py_print_cases[of env ?w] have pw: "py_print env ?w = (Inr (), [Print ?w])" by auto
    show f: "fetch_video_info env b =
           (Inr (init_video_info b),
            [Print (lit ''Fetching main info: '' @ view_api_url b), Get (view_api_url b), Print ?w])"
      by (simp add: fetch_video_info_def v pw)
    show "parse_bili env u =
           (Segments
              [Text (title_label @ lit ''N/A'' @ up_label @ lit ''N/A''),
               Image (JStr (lit ''N/A'')),
               Text (views_label @ lit ''N/A'' @ danmaku_label @ lit ''N/A'' @ likes_label
                     @ lit ''N/A'' @ coins_label @ lit ''N/A'' @ favorites_label @ lit ''N/A''
                     @ shares_label @ lit ''N/A'' @ description_label @ lit ''N/A'' @ [10] @ [10]
                     @ lit ''https://www.bilibili.com/video/'' @ b)],
            snd (resolve_step env u)
            @ [Print (lit ''Extracted BVID: '' @ b),
               Print (lit ''Fetching main info: '' @ view_api_url b),
               Get (view_api_url b), Print ?w])"
      unfolding parse_bili_fetched[OF assms(1,2)] f
      by (simp add: format_segments_def text_1_init text_2_init[OF b])
  }
  fix e
  assume bad: "fst (py_print env ?w) = Inl e"
  with py_print_cases[of env ?w] obtain m where pw: "py_print env ?w = (Inl (OtherException m), [])"
    and e: "e = OtherException m" by auto
  have f: "fetch_video_info env b =
           (Inl (OtherException m),
            [Print (lit ''Fetching main info: '' @ view_api_url b), Get (view_api_url b)])"
    by (simp add: fetch_video_info_def v pw)
  show "parse_bili env u =
              (ErrorString (lit ''Error: An unexpected error occurred - '' @ exn_str e),
               snd (resolve_step env u)
               @ [Print (lit ''Extracted BVID: '' @ b),
                  Print (lit ''Fetching main info: '' @ view_api_url b),
                  Get (view_api_url b)])"
    unfolding parse_bili_fetched[OF assms(1,2)] f
    by (simp add: fetch_error_message_def e)
qed

theorem view_error_continues_witness:
  "fst (parse_bili
     \<lparr>redirect_get = (\<lambda>a. Inl []),
      api_get = (\<lambda>a. Inr (JObj [(lit ''code'', JInt (- 404)), (lit ''message'', JStr (lit ''gone''))])),
      str_other = (\<lambda>v. []), stdout = (\<lambda>s. None)\<rparr>
     (lit ''BV1xx411c7mD'')) =
   Segments
     [Text (title_label @ lit ''N/A'' @ up_label @ lit ''N/A''),
      Image (JStr (lit ''N/A'')),
      Text (views_label @ lit ''N/A'' @ danmaku_label @ lit ''N/A'' @ likes_label
            @ lit ''N/A'' @ coins_label @ lit ''N/A'' @ favorites_label @ lit ''N/A''
            @ shares_label @ lit ''N/A'' @ description_label @ lit ''N/A'' @ [10] @ [10]
            @ lit ''https://www.bilibili.com/video/'' @ lit ''BV1xx411c7mD'')]
   \<and> snd (parse_bili
     \<lparr>redirect_get = (\<lambda>a. Inl []),
      api_get = (\<lambda>a. Inr (JObj [(lit ''code'', JInt (- 404)), (lit ''message'', JStr (lit ''gone''))])),
      str_other = (\<lambda>v. []), stdout = (\<lambda>s. None)\<rparr>
     (lit ''BV1xx411c7mD'')) =
     [Print (lit ''Extracted BVID: '' @ lit ''BV1xx411c7mD''),
      Print (lit ''Fetching main info: '' @ view_api_url (lit ''BV1xx411c7mD'')),
      Get (view_api_url (lit ''BV1xx411c7mD'')),
      Print (lit ''Warning: View API error for '' @ lit ''BV1xx411c7mD'' @ lit '' - '' @ lit ''gone'')]"
proof -
  let ?kvs = "[(lit ''code'', JInt (- 404)), (lit ''message'', JStr (lit ''gone''))]"
  let ?env = "\<lparr>redirect_get = (\<lambda>a. Inl []), api_get = (\<lambda>a. Inr (JObj ?kvs)),
               str_other = (\<lambda>v. []), stdout = (\<lambda>s. None)\<rparr>"
  let ?u = "lit ''BV1xx411c7mD''"
  have r: "resolve_step ?env ?u = (Inr ?u, [])"
    by (simp add: resolve_step_def short_link_heuristic_def py_startswith_def lit_def)
  have e: "extract_bvid_from_url ?u = Some ?u"
    by (simp add: extract_bvid_from_url_def lit_def match_bv_here_def is_alnum_def)
  have c: "map_of ?kvs (lit ''code'') = Some (JInt (- 404))" by (simp add: lit_def)
  have m: "map_of ?kvs (lit ''message'') = Some (JStr (lit ''gone''))" by (simp add: lit_def)
  have a: "api_get ?env (view_api_url ?u) = Inr (JObj ?kvs)" by simp
  have z: "\<not> py_eq_zero (JInt (- 404))" by simp
  have r': "fst (resolve_step ?env ?u) = Inr ?u" by (simp add: r)
  have w: "\<forall>s. stdout ?env s = None" by simp
  note t = view_error_continues [OF r' e a c z, unfolded m, THEN conjunct1]
  from t show ?thesis by (simp add: py_str_def r py_print_writes[OF w])
qed

text \<open>
  The reply \<open>{"code": -404, "message": "\ud800"}\<close> on a console that cannot encode the
  surrogate: the warning cannot be printed and \<open>parse_bili\<close> returns an error string, not
  the segments.
\<close>

theorem view_error_warning_fails:
  "fst (parse_bili
     \<lparr>redirect_get = (\<lambda>a. Inl []),
      api_get = (\<lambda>a. Inr (JObj [(lit ''code'', JInt (- 404)), (lit ''message'', JStr [55296])])),
      str_other = (\<lambda>v. []),
      stdout = (\<lambda>s. if 55296 \<in> set s then Some (lit ''surrogates not allowed'') else None)\<rparr>
     (lit ''BV1xx411c7mD''))
   = ErrorString (lit ''Error: An unexpected error occurred - surrogates not allowed'')"
proof -
  let ?kvs = "[(lit ''code'', JInt (- 404)), (lit ''message'', JStr [55296])]"
  let ?env = "\<lparr>redirect_get = (\<lambda>a. Inl []), api_get = (\<lambda>a. Inr (JObj ?kvs)),
               str_other = (\<lambda>v. []),
               stdout = (\<lambda>s. if 55296 \<in> set s then Some (lit ''surrogates not allowed'') else None)\<rparr>"
  let ?u = "lit ''BV1xx411c7mD''"
  have r: "fst (resolve_step ?env ?u) = Inr ?u"
    by (simp add: resolve_step_def short_link_heuristic_def py_startswith_def lit_def)
  have e: "extract_bvid_from_url ?u = Some ?u"
    by (simp add: extract_bvid_from_url_def lit_def match_bv_here_def is_alnum_def)
  have c: "map_of ?kvs (lit ''code'') = Some (JInt (- 404))" by (simp add: lit_def)
  have m: "map_of ?kvs (lit ''message'') = Some (JStr [55296])" by (simp add: lit_def)
  have a: "api_get ?env (view_api_url (bvid (init_video_info ?u))) = Inr (JObj ?kvs)" by simp
  have z: "\<not> py_eq_zero (JInt (- 404))" by simp
  have asc: "list_all (\<lambda>c. c < 128) (bvid (init_video_info ?u))"
    using extract_bvid_ascii[OF e] by simp
  note fv = fetch_view_nonzero[OF a c z asc, unfolded m]
  have v: "fetch_view ?env (init_video_info ?u)
      = (Inl (OtherException (lit ''surrogates not allowed'')),
         [Print (lit ''Fetching main info: '' @ view_api_url ?u), Get (view_api_url ?u)])"
    unfolding fv by (simp add: py_str_def py_print_def)
  have "fst (fetch_video_info ?env ?u) = Inl (OtherException (lit ''surrogates not allowed''))"
    by (simp add: fetch_video_info_def v)
  then show ?thesis
    unfolding parse_bili_fetched[OF r e]
    by (simp add: fetch_error_message_def) (simp add: lit_def)
qed

lemma fetch_error_message_prefix: "prefix (lit ''Error: '') (fetch_error_message e)"
proof -
  have 1: "lit ''Error: Network request failed during API call - ''
           = lit ''Error: '' @ lit ''Network request failed during API call - ''"
    and 2: "lit ''Error: Failed to decode JSON response from API - ''
           = lit ''Error: '' @ lit ''Failed to decode JSON response from API - ''"
    and 3: "lit ''Error: An unexpected error occurred - ''
           = lit ''Error: '' @ lit ''An unexpected error occurred - ''"
    by (simp_all add: lit_def)
  show ?thesis
    by (cases e) (simp_all add: fetch_error_message_def 1 2 3 del: append_assoc)
qed

lemma format_segments_shape:
  "\<exists>t1 img t2. format_segments so vi = [Text t1, Image img, Text t2]"
  by (simp add: format_segments_def)

lemma parse_bili_fetch_error:
  assumes "fst (resolve_step env u) = Inr p" "extract_bvid_from_url p = Some b"
    "fst (fetch_video_info env b) = Inl e" "is_Exception e"
  shows "fst (parse_bili env u) = ErrorString (fetch_error_message e)"
  unfolding parse_bili_fetched[OF assms(1,2)] using assms(3,4) by simp

lemma parse_bili_fetch_escapes:
  assumes "fst (resolve_step env u) = Inr p" "extract_bvid_from_url p = Some b"
    "fst (fetch_video_info env b) = Inl e" "\<not> is_Exception e"
  shows "fst (parse_bili env u) = Raised e"
  unfolding parse_bili_fetched[OF assms(1,2)] using assms(3,4) by simp

lemma fetch_view_raises:
  "list_all (\<lambda>c. c < 128) (bvid vi) \<Longrightarrow> api_get env (view_api_url (bvid vi)) = Inl e \<Longrightarrow>
     fst (fetch_view env vi) = Inl e"
  by (simp add: fetch_view_def Let_def fetching_line_prints)

lemma fetch_video_info_raises:
  "list_all (\<lambda>c. c < 128) b \<Longrightarrow> api_get env (view_api_url b) = Inl e \<Longrightarrow>
     fst (fetch_video_info env b) = Inl e"
  using fetch_view_raises[of "init_video_info b" env e]
  by (cases "fetch_view env (init_video_info b)") (simp add: fetch_video_info_def)

text \<open>A reply that is no JSON object has no method \<open>get\<close>.\<close>

lemma fetch_video_info_not_dict:
  assumes "list_all (\<lambda>c. c < 128) b" "api_get env (view_api_url b) = Inr v" "\<forall>kvs. v \<noteq> JObj kvs"
  shows "fst (fetch_video_info env b)
           = Inl (AttributeError ([39] @ type_name v @ [39] @ lit '' object has no attribute ''
                                  @ [39] @ lit ''get'' @ [39]))"
proof -
  from assms(3) have "py_get v (lit ''code'') JNull
           = Inl (AttributeError ([39] @ type_name v @ [39] @ lit '' object has no attribute ''
                                  @ [39] @ lit ''get'' @ [39]))"
    by (cases v) (simp_all add: py_get_def)
  with assms(1,2) show ?thesis
    by (simp add: fetch_video_info_def fetch_view_def Let_def fetching_line_prints)
qed

text \<open>
  Claim C10. Once the short link step has given an address with a video id: an exception
  of the \<open>try\<close> body that derives from \<open>Exception\<close>, a request error, a JSON decoding
  error or any other one, makes \<open>parse_bili\<close> return the error string of the handler that
  catches it; a \<open>KeyboardInterrupt\<close> or a \<open>SystemExit\<close> is not caught and \<open>parse_bili\<close>
  raises it; without an exception the three segments are returned. An exception raised by
  the video request passes to the handlers as it is, and a video reply that is no JSON
  object gives an \<open>AttributeError\<close>. What the short link step raises, outside the \<open>try\<close>
  statement, \<open>parse_bili\<close> raises. So \<open>parse_bili\<close> returns an error string or the three
  segments whenever the short link step does not raise and the \<open>try\<close> body raises nothing
  but subclasses of \<open>Exception\<close>.
\<close>

theorem fetch_exceptions_caught:
  "(\<forall>p b. fst (resolve_step env u) = Inr p \<and> extract_bvid_from_url p = Some b \<longrightarrow>
       (\<forall>e. fst (fetch_video_info env b) = Inl e \<and> is_Exception e \<longrightarrow>
          fst (parse_bili env u) = ErrorString (fetch_error_message e)
          \<and> prefix (lit ''Error: '') (fetch_error_message e))
       \<and> (\<forall>e. fst (fetch_video_info env b) = Inl e \<and> \<not> is_Exception e \<longrightarrow>
          fst (parse_bili env u) = Raised e)
       \<and> (\<forall>vi. fst (fetch_video_info env b) = Inr vi \<longrightarrow>
          (\<exists>t1 img t2. fst (parse_bili env u) = Segments [Text t1, Image img, Text t2]))
       \<and> (\<forall>e. api_get env (view_api_url b) = Inl e \<longrightarrow> fst (fetch_video_info env b) = Inl e)
       \<and> (\<forall>v. api_get env (view_api_url b) = Inr v \<and> (\<forall>kvs. v \<noteq> JObj kvs) \<longrightarrow>
          fst (fetch_video_info env b)
            = Inl (AttributeError ([39] @ type_name v @ [39] @ lit '' object has no attribute ''
                                   @ [39] @ lit ''get'' @ [39]))))
   \<and> (\<forall>e. fst (resolve_step env u) = Inl (Raised e) \<longrightarrow> fst (parse_bili env u) = Raised e)
   \<and> ((\<forall>e. fst (resolve_step env u) \<noteq> Inl (Raised e))
       \<and> (\<forall>b e. fst (fetch_video_info env b) = Inl e \<longrightarrow> is_Exception e) \<longrightarrow>
       (\<exists>msg. fst (parse_bili env u) = ErrorString msg)
       \<or> (\<exists>t1 img t2. fst (parse_bili env u) = Segments [Text t1, Image img, Text t2]))"
proof (intro conjI allI impI)
  fix p b e
  assume a: "fst (resolve_step env u) = Inr p \<and> extract_bvid_from_url p = Some b"
    and e: "fst (fetch_video_info env b) = Inl e \<and> is_Exception e"
  then show "fst (parse_bili env u) = ErrorString (fetch_error_message e)"
    using parse_bili_fetch_error by blast
  show "prefix (lit ''Error: '') (fetch_error_message e)"
    by (rule fetch_error_message_prefix)
next
  fix p b e
  assume "fst (resolve_step env u) = Inr p \<and> extract_bvid_from_url p = Some b"
    and "fst (fetch_video_info env b) = Inl e \<and> \<not> is_Exception e"
  then show "fst (parse_bili env u) = Raised e"
    using parse_bili_fetch_escapes by blast
next
  fix p b vi
  assume a: "fst (resolve_step env u) = Inr p \<and> extract_bvid_from_url p = Some b"
    and v: "fst (fetch_video_info env b) = Inr vi"
  from a have r: "fst (resolve_step env u) = Inr p" and x: "extract_bvid_from_url p = Some b"
    by blast+
  show "\<exists>t1 img t2. fst (parse_bili env u) = Segments [Text t1, Image img, Text t2]"
    unfolding parse_bili_fetched[OF r x] using v by (simp add: format_segments_def)
next
  fix p b e
  assume "fst (resolve_step env u) = Inr p \<and> extract_bvid_from_url p = Some b"
    and "api_get env (view_api_url b) = Inl e"
  then show "fst (fetch_video_info env b) = Inl e"
    using fetch_video_info_raises extract_bvid_ascii by blast
next
  fix p b v
  assume "fst (resolve_step env u) = Inr p \<and> extract_bvid_from_url p = Some b"
    and "api_get env (view_api_url b) = Inr v \<and> (\<forall>kvs. v \<noteq> JObj kvs)"
  then show "fst (fetch_video_info env b)
            = Inl (AttributeError ([39] @ type_name v @ [39] @ lit '' object has no attribute ''
                                   @ [39] @ lit ''get'' @ [39]))"
    using fetch_video_info_not_dict extract_bvid_ascii by blast
next
  fix e assume "fst (resolve_step env u) = Inl (Raised e)"
  then show "fst (parse_bili env u) = Raised e" by (rule parse_bili_raises)
next
  assume a: "(\<forall>e. fst (resolve_step env u) \<noteq> Inl (Raised e))
       \<and> (\<forall>b e. fst (fetch_video_info env b) = Inl e \<longrightarrow> is_Exception e)"
  show "(\<exists>msg. fst (parse_bili env u) = ErrorString msg)
      \<or> (\<exists>t1 img t2. fst (parse_bili env u) = Segments [Text t1, Image img, Text t2])"
  proof (cases "fst (resolve_step env u)")
    case (Inl r)
    with a resolve_step_no_segments[of env u] obtain err where "r = ErrorString err"
      by (cases r) auto
    with Inl show ?thesis using parse_bili_raises[of env u r] by simp
  next
    case (Inr p)
    show ?thesis
    proof (cases "extract_bvid_from_url p")
      case None
      with Inr show ?thesis
        by (cases "resolve_step env u") (simp add: parse_bili_def)
    next
      case (Some b)
      show ?thesis
      proof (cases "fst (fetch_video_info env b)")
        case (Inl e)
        with a have "is_Exception e" by blast
        with Inl show ?thesis unfolding parse_bili_fetched[OF Inr Some] by simp
      next
        case (Inr vi)
        then show ?thesis
          unfolding parse_bili_fetched[OF \<open>fst (resolve_step env u) = Inr p\<close> Some]
          by (simp add: format_segments_def)
      qed
    qed
  qed
qed

theorem fetch_exceptions_caught_witness:
  "fst (fetch_video_info
          \<lparr>redirect_get = (\<lambda>a. Inl []), api_get = (\<lambda>a. Inr (JArr [])), str_other = (\<lambda>v. []),
           stdout = (\<lambda>s. None)\<rparr>
          (lit ''BV1xx411c7mD''))
     = Inl (AttributeError ([39] @ lit ''list'' @ [39] @ lit '' object has no attribute '' @ [39]
                            @ lit ''get'' @ [39]))
   \<and> fst (parse_bili
          \<lparr>redirect_get = (\<lambda>a. Inl []), api_get = (\<lambda>a. Inr (JArr [])), str_other = (\<lambda>v. []),
           stdout = (\<lambda>s. None)\<rparr>
          (lit ''BV1xx411c7mD''))
     = ErrorString (lit ''Error: An unexpected error occurred - '' @ [39] @ lit ''list'' @ [39]
                    @ lit '' object has no attribute '' @ [39] @ lit ''get'' @ [39])
   \<and> fst (parse_bili
          \<lparr>redirect_get = (\<lambda>a. Inl []), api_get = (\<lambda>a. Inl (JSONDecodeError (lit ''Expecting value''))),
           str_other = (\<lambda>v. []), stdout = (\<lambda>s. None)\<rparr>
          (lit ''BV1xx411c7mD''))
     = ErrorString (lit ''Error: Failed to decode JSON response from API - '' @ lit ''Expecting value'')"
proof -
  let ?env = "\<lparr>redirect_get = (\<lambda>a. Inl []), api_get = (\<lambda>a. Inr (JArr [])), str_other = (\<lambda>v. []),
               stdout = (\<lambda>s. None)\<rparr>"
  let ?env2 = "\<lparr>redirect_get = (\<lambda>a. Inl []), api_get = (\<lambda>a. Inl (JSONDecodeError (lit ''Expecting value''))),
           str_other = (\<lambda>v. []), stdout = (\<lambda>s. None)\<rparr>"
  let ?u = "lit ''BV1xx411c7mD''"
  let ?e = "AttributeError ([39] @ lit ''list'' @ [39] @ lit '' object has no attribute '' @ [39]
                            @ lit ''get'' @ [39])"
  have r: "fst (resolve_step ?env ?u) = Inr ?u" and r2: "fst (resolve_step ?env2 ?u) = Inr ?u"
    by (simp_all add: resolve_step_def short_link_heuristic_def py_startswith_def lit_def)
  have x: "extract_bvid_from_url ?u = Some ?u"
    by (simp add: extract_bvid_from_url_def lit_def match_bv_here_def is_alnum_def)
  have g: "api_get ?env (view_api_url ?u) = Inr (JArr []) \<and> (\<forall>kvs. JArr [] \<noteq> JObj kvs)"
    by simp
  have g2: "api_get ?env2 (view_api_url ?u) = Inl (JSONDecodeError (lit ''Expecting value''))"
    by simp
  note t = fetch_exceptions_caught [of ?env ?u, THEN conjunct1, rule_format, OF conjI, OF r x]
  note t2 = fetch_exceptions_caught [of ?env2 ?u, THEN conjunct1, rule_format, OF conjI, OF r2 x]
  from t g have f: "fst (fetch_video_info ?env ?u) = Inl ?e"
    by (metis type_name.simps(6))
  from t2 g2 have f2: "fst (fetch_video_info ?env2 ?u) = Inl (JSONDecodeError (lit ''Expecting value''))"
    by blast
  from t f have a: "fst (parse_bili ?env ?u) = ErrorString (fetch_error_message ?e)"
    by (metis is_Exception.simps(5))
  from t2 f2 have b: "fst (parse_bili ?env2 ?u)
      = ErrorString (fetch_error_message (JSONDecodeError (lit ''Expecting value'')))"
    by (metis is_Exception.simps(4))
  from f a b show ?thesis by (simp add: fetch_error_message_def)
qed

text \<open>
  Two calls that raise. A \<open>KeyboardInterrupt\<close> that arrives during the video request is
  not caught by \<open>except Exception\<close>. For the input \<open>b23.tv/\<close> and a character that the
  console cannot encode, the first \<open>print\<close> of the short link step raises outside the
  \<open>try\<close> statement.
\<close>

theorem parse_bili_propagates:
  "fst (parse_bili
          \<lparr>redirect_get = (\<lambda>a. Inl []), api_get = (\<lambda>a. Inl KeyboardInterrupt),
           str_other = (\<lambda>v. []), stdout = (\<lambda>s. None)\<rparr>
          (lit ''BV1xx411c7mD''))
     = Raised KeyboardInterrupt
   \<and> fst (parse_bili
          \<lparr>redirect_get = (\<lambda>a. Inl []), api_get = (\<lambda>a. Inl (RequestException [])),
           str_other = (\<lambda>v. []),
           stdout = (\<lambda>s. if 20013 \<in> set s then Some (lit ''character maps to <undefined>'')
                          else None)\<rparr>
          (lit ''b23.tv/'' @ [20013]))
     = Raised (OtherException (lit ''character maps to <undefined>''))"
proof
  let ?env = "\<lparr>redirect_get = (\<lambda>a. Inl []), api_get = (\<lambda>a. Inl KeyboardInterrupt),
           str_other = (\<lambda>v. []), stdout = (\<lambda>s. None)\<rparr>"
  let ?u = "lit ''BV1xx411c7mD''"
  have r: "fst (resolve_step ?env ?u) = Inr ?u"
    by (simp add: resolve_step_def short_link_heuristic_def py_startswith_def lit_def)
  have x: "extract_bvid_from_url ?u = Some ?u"
    by (simp add: extract_bvid_from_url_def lit_def match_bv_here_def is_alnum_def)
  have "fst (fetch_video_info ?env ?u) = Inl KeyboardInterrupt"
    by (rule fetch_video_info_raises[OF extract_bvid_ascii[OF x]]) simp
  then show "fst (parse_bili ?env ?u) = Raised KeyboardInterrupt"
    unfolding parse_bili_fetched[OF r x] by simp
next
  let ?env = "\<lparr>redirect_get = (\<lambda>a. Inl []), api_get = (\<lambda>a. Inl (RequestException [])),
           str_other = (\<lambda>v. []),
           stdout = (\<lambda>s. if 20013 \<in> set s then Some (lit ''character maps to <undefined>'')
                          else None)\<rparr>"
  let ?u = "lit ''b23.tv/'' @ [20013]"
  have h: "short_link_heuristic ?u"
    by (simp add: short_link_heuristic_def lit_def)
  have p: "potential_b23_url ?u = ?u"
    by (simp add: potential_b23_url_def lit_def)
  have "py_print ?env (lit ''Attempting to resolve short link: '' @ ?u)
          = (Inl (OtherException (lit ''character maps to <undefined>'')), [])"
    by (simp add: py_print_def)
  with h p have "fst (resolve_step ?env ?u)
      = Inl (Raised (OtherException (lit ''character maps to <undefined>'')))"
    by (simp add: resolve_step_def Let_def)
  then show "fst (parse_bili ?env ?u) = Raised (OtherException (lit ''character maps to <undefined>''))"
    by (rule parse_bili_raises)
qed

section \<open>Properties of the clipboard markup\<close>

lemma py_replace_absent:
  "old \<noteq> [] \<Longrightarrow> hd old \<notin> set s \<Longrightarrow> py_replace old new s = s"
proof (induction s)
  case Nil
  then show ?case by simp
next
  case (Cons c cs)
  then have "\<not> prefix old (c # cs)" by (cases old) auto
  with Cons show ?case by simp
qed

text \<open>
  Claim C7, at the input \<open>a\<close>, newline, \<open>b\<close>: the paragraph built for a \<open>Text\<close> segment
  still holds the newline character and no \<open><br>\<close>. The call of \<open>replace\<close> in the source
  looks for a backslash followed by \<open>n\<close>, so a text without a backslash is only stripped.
\<close>

theorem text_paragraph_keeps_newline:
  "text_paragraph (lit ''a'' @ [10] @ lit ''b'') = lit ''<p>a'' @ [10] @ lit ''b</p>''
   \<and> segment_html load_image (Text (lit ''a'' @ [10] @ lit ''b''))
       = [lit ''<p>a'' @ [10] @ lit ''b</p>'']
   \<and> text_paragraph (lit ''a'' @ [92, 110] @ lit ''b'') = lit ''<p>a<br>b</p>''"
  by (simp add: segment_html_def text_paragraph_def py_strip_def py_isspace_def lit_def)

lemma text_paragraph_no_backslash:
  "92 \<notin> set text0 \<Longrightarrow> text_paragraph text0 = lit ''<p>'' @ py_strip text0 @ lit ''</p>''"
proof -
  assume a: "92 \<notin> set text0"
  have "set (py_strip text0) \<subseteq> set text0"
  proof
    fix x assume "x \<in> set (py_strip text0)"
    then have "x \<in> set (dropWhile py_isspace (rev (dropWhile py_isspace text0)))"
      by (simp add: py_strip_def)
    then have "x \<in> set (rev (dropWhile py_isspace text0))" by (rule set_dropWhileD)
    then have "x \<in> set (dropWhile py_isspace text0)" by simp
    then show "x \<in> set text0" by (rule set_dropWhileD)
  qed
  with a have "92 \<notin> set (py_strip text0)" by blast
  then have "py_replace [92, 110] (lit ''<br>'') (py_strip text0) = py_strip text0"
    by (intro py_replace_absent) simp_all
  then show ?thesis by (simp add: text_paragraph_def)
qed

section \<open>Properties of the decimal strings\<close>

lemma str_nat_nonempty [simp]: "str_nat n \<noteq> []"
  by (subst str_nat.simps) simp

lemma str_nat_digits: "list_all is_digit (str_nat n)"
proof (induction n rule: str_nat.induct)
  case (1 n)
  show ?case
  proof (cases "n < 10")
    case True
    then show ?thesis by (subst str_nat.simps) (simp add: is_digit_def)
  next
    case False
    have "n mod 10 < 10" by simp
    then have "is_digit (48 + n mod 10)" unfolding is_digit_def by linarith
    with False 1 show ?thesis by (subst str_nat.simps) simp
  qed
qed

lemma dec_value_snoc: "dec_value (s @ [c]) = 10 * dec_value s + (c - 48)"
  by (simp add: dec_value_def)

lemma str_nat_value: "dec_value (str_nat n) = n"
proof (induction n rule: str_nat.induct)
  case (1 n)
  show ?case
  proof (cases "n < 10")
    case True
    then show ?thesis by (subst str_nat.simps) (simp add: dec_value_def)
  next
    case False
    with 1 have "dec_value (str_nat (n div 10)) = n div 10" by simp
    with False show ?thesis by (subst str_nat.simps) (simp add: dec_value_snoc)
  qed
qed

lemma str_nat_length: "0 < k \<Longrightarrow> n < 10 ^ k \<Longrightarrow> length (str_nat n) \<le> k"
proof (induction n arbitrary: k rule: str_nat.induct)
  case (1 n)
  show ?case
  proof (cases "n < 10")
    case True
    with 1(2) show ?thesis by (subst str_nat.simps) simp
  next
    case False
    with 1(2) 1(3) have k: "1 < k" by (cases "k = 1") auto
    then obtain j where j: "k = Suc j" "0 < j" by (cases k) auto
    with 1(3) have "n div 10 < 10 ^ j" by (simp add: less_mult_imp_div_less mult.commute)
    with 1(1)[OF False j(2)] have "length (str_nat (n div 10)) \<le> j" by simp
    with False j show ?thesis by (subst str_nat.simps) simp
  qed
qed

lemma str_nat_no_leading_zero: "10 \<le> n \<Longrightarrow> hd (str_nat n) \<noteq> 48"
proof (induction n rule: str_nat.induct)
  case (1 n)
  from 1(2) have nl: "\<not> n < 10" by simp
  show ?case
  proof (cases "n div 10 < 10")
    case True
    from 1(2) have "0 < n div 10" by simp
    with True nl show ?thesis
      by (subst str_nat.simps, simp, subst str_nat.simps, simp)
  next
    case False
    with 1(1)[OF nl] have "hd (str_nat (n div 10)) \<noteq> 48" by simp
    with nl show ?thesis by (subst str_nat.simps) (simp add: hd_append)
  qed
qed

lemma dec_value_zeros: "dec_value (replicate k 48 @ s) = dec_value s"
proof -
  have "\<And>a. foldl (\<lambda>a c. 10 * a + (c - 48)) 0 (replicate k 48) = (0::nat)"
    by (induction k) simp_all
  then show ?thesis by (simp add: dec_value_def)
qed

lemma str_nat_length_ge: "10 ^ k \<le> n \<Longrightarrow> k < length (str_nat n)"
proof (induction n arbitrary: k rule: str_nat.induct)
  case (1 n)
  show ?case
  proof (cases k)
    case 0
    have "str_nat n \<noteq> []" by simp
    with 0 show ?thesis by (simp del: str_nat_nonempty)
  next
    case (Suc j)
    with 1(2) have n10: "\<not> n < 10"
      by (metis One_nat_def leD le_trans one_le_numeral one_le_power power_Suc mult.right_neutral mult_le_mono2)
    from Suc 1(2) have "10 ^ j \<le> n div 10" by (simp add: less_eq_div_iff_mult_less_eq mult.commute)
    with 1(1)[OF n10] have "j < length (str_nat (n div 10))" by simp
    with n10 Suc show ?thesis by (subst str_nat.simps) simp
  qed
qed

lemma format_010d_digits:
  "list_all is_digit (format_010d (int n))" "dec_value (format_010d (int n)) = n"
proof -
  have f: "format_010d (int n) = replicate (10 - length (str_nat n)) 48 @ str_nat n"
    by (simp add: format_010d_def)
  show "list_all is_digit (format_010d (int n))"
    unfolding f using str_nat_digits[of n] by (auto simp: list_all_iff is_digit_def)
  show "dec_value (format_010d (int n)) = n" unfolding f by (simp add: dec_value_zeros str_nat_value)
qed

lemma format_010d_length: "n < 10 ^ 10 \<Longrightarrow> length (format_010d (int n)) = 10"
  using str_nat_length[of 10 n] by (simp add: format_010d_def)

lemma format_010d_long: "10 ^ 10 \<le> n \<Longrightarrow> 10 < length (format_010d (int n))"
  using str_nat_length_ge[of 10 n] by (simp add: format_010d_def)

section \<open>Properties of the encoding and of the search\<close>

lemma utf8_encode_append:
  "utf8_encode (a @ b) =
     (case utf8_encode a of Inl e \<Rightarrow> Inl e
      | Inr x \<Rightarrow> (case utf8_encode b of Inl e \<Rightarrow> Inl e | Inr y \<Rightarrow> Inr (x @ y)))"
  by (induction a) (auto split: option.splits sum.splits)

lemma utf8_encode_ascii:
  "list_all (\<lambda>c. c < 128) s \<Longrightarrow> utf8_encode s = Inr (map of_nat s)"
  by (induction s) (auto simp: utf8_char_def)

lemma find_at_skip:
  "(\<forall>i < length a. \<not> prefix sub (drop i (a @ b))) \<Longrightarrow>
     find_at sub (a @ b) = map_option (\<lambda>k. k + length a) (find_at sub b)"
proof (induction a)
  case Nil
  show ?case by (simp add: option.map_ident)
next
  case (Cons x a)
  from Cons.prems have 0: "\<not> prefix sub ((x # a) @ b)" by force
  have "\<forall>i < length a. \<not> prefix sub (drop i (a @ b))"
  proof (intro allI impI)
    fix i assume "i < length a"
    then have "Suc i < length (x # a)" by simp
    with Cons.prems have "\<not> prefix sub (drop (Suc i) ((x # a) @ b))" by blast
    then show "\<not> prefix sub (drop i (a @ b))" by simp
  qed
  from Cons.IH[OF this] 0 show ?case
    by (simp add: option.map_comp comp_def)
qed

lemma find_at_here: "prefix sub s \<Longrightarrow> find_at sub s = Some 0"
  by (cases s) auto

text \<open>A pattern whose first element does not occur again in it cannot overlap itself.\<close>

lemma prefix_no_overlap:
  assumes "e \<notin> set es" and "prefix (e # es) (x @ (e # es) @ q)"
  shows "x = [] \<or> prefix (e # es) x"
proof -
  from assms(2) have "prefix (e # es) x \<or> (\<exists>us. e # es = x @ us \<and> prefix us ((e # es) @ q))"
    by (rule iffD1 [OF prefix_append])
  then consider "prefix (e # es) x" | us where "e # es = x @ us" "prefix us ((e # es) @ q)"
    by blast
  then show ?thesis
  proof cases
    case 1
    then show ?thesis by simp
  next
    case 2
    show ?thesis
    proof (cases x)
      case Nil
      then show ?thesis by simp
    next
      case (Cons y ys)
      with 2(1) have es: "es = ys @ us" by simp
      show ?thesis
      proof (cases us)
        case Nil
        with 2(1) show ?thesis by simp
      next
        case (Cons u us')
        with 2(2) have "u = e" by simp
        with es Cons assms(1) show ?thesis by simp
      qed
    qed
  qed
qed

lemma find_at_after:
  assumes "e \<notin> set es" and "\<not> py_contains (e # es) f"
  shows "find_at (e # es) (f @ (e # es) @ q) = Some (length f)"
  using assms(2)
proof (induction f)
  case Nil
  show ?case by simp
next
  case (Cons c f)
  from Cons.prems have np: "\<not> prefix (e # es) (c # f)" and nc: "\<not> py_contains (e # es) f"
    by simp_all
  have "\<not> prefix (e # es) ((c # f) @ (e # es) @ q)"
    using prefix_no_overlap[OF assms(1), of "c # f" q] np by blast
  with Cons.IH[OF nc] show ?case by simp
qed

section \<open>Properties of the clipboard payload\<close>

lemma blit_values:
  "blit ''<html><body>'' = [60, 104, 116, 109, 108, 62, 60, 98, 111, 100, 121, 62]"
  "blit ''<!--StartFragment-->'' =
     [60, 33, 45, 45, 83, 116, 97, 114, 116, 70, 114, 97, 103, 109, 101, 110, 116, 45, 45, 62]"
  "blit ''<!--EndFragment-->'' =
     [60, 33, 45, 45, 69, 110, 100, 70, 114, 97, 103, 109, 101, 110, 116, 45, 45, 62]"
  "blit ''</body></html>'' = [60, 47, 98, 111, 100, 121, 62, 60, 47, 104, 116, 109, 108, 62]"
  by (simp_all add: blit_def)

lemma utf8_literals:
  "utf8_encode (lit ''<html><body>'') = Inr (blit ''<html><body>'')"
  "utf8_encode (lit ''<!--StartFragment-->'') = Inr (blit ''<!--StartFragment-->'')"
  "utf8_encode (lit ''<!--EndFragment-->'') = Inr (blit ''<!--EndFragment-->'')"
  "utf8_encode (lit ''</body></html>'') = Inr (blit ''</body></html>'')"
  by (simp_all add: lit_def blit_def utf8_char_def)

lemma utf8_wrap:
  "utf8_encode fragment = Inr fb \<Longrightarrow>
   utf8_encode (wrap_fragment fragment) =
     Inr (blit ''<html><body>'' @ blit ''<!--StartFragment-->'' @ fb @ blit ''<!--EndFragment-->''
          @ blit ''</body></html>'')"
  by (simp add: wrap_fragment_def utf8_encode_append utf8_literals)

lemma find_start:
  "find_at (blit ''<!--StartFragment-->'') (blit ''<html><body>'' @ blit ''<!--StartFragment-->'' @ r)
     = Some 12"
  by (simp add: blit_values)

lemma find_end_tail:
  assumes "\<not> py_contains (blit ''<!--EndFragment-->'') fb"
  shows "find_at (blit ''<!--EndFragment-->'') (fb @ blit ''<!--EndFragment-->'' @ q) = Some (length fb)"
  using assms unfolding blit_values
  by (intro find_at_after) simp_all

lemma find_end:
  assumes "\<not> py_contains (blit ''<!--EndFragment-->'') fb"
  shows "find_at (blit ''<!--EndFragment-->'')
           (blit ''<html><body>'' @ blit ''<!--StartFragment-->'' @ fb @ blit ''<!--EndFragment-->'' @ q)
         = Some (32 + length fb)"
proof -
  note t = find_end_tail [OF assms, of q, unfolded blit_values, simplified]
  show ?thesis unfolding blit_values by (simp add: t)
qed

lemma cf_header_ascii:
  "list_all (\<lambda>c. c < 128) a \<Longrightarrow> list_all (\<lambda>c. c < 128) b \<Longrightarrow> list_all (\<lambda>c. c < 128) c
   \<Longrightarrow> list_all (\<lambda>c. c < 128) d \<Longrightarrow> list_all (\<lambda>c. c < 128) (cf_header a b c d)"
  by (simp add: cf_header_def header_eol_def lit_def)

lemma cf_header_length:
  "length (cf_header a b c d) = 75 + length a + length b + length c + length d"
  by (simp add: cf_header_def header_eol_def lit_def)

lemma digits_ascii: "list_all is_digit s \<Longrightarrow> list_all (\<lambda>c. c < 128) s"
  by (auto simp: list_all_iff is_digit_def)

lemma utf8_header:
  assumes "list_all is_digit a" "list_all is_digit b" "list_all is_digit c" "list_all is_digit d"
  shows "utf8_encode (cf_header a b c d) = Inr (map of_nat (cf_header a b c d))"
  by (intro utf8_encode_ascii cf_header_ascii digits_ascii assms)

lemma utf8_header_dummy:
  "utf8_encode (cf_header (lit ''0000000000'') (lit ''0000000000'') (lit ''0000000000'')
                  (lit ''0000000000''))
   = Inr (map of_nat (cf_header (lit ''0000000000'') (lit ''0000000000'') (lit ''0000000000'')
                  (lit ''0000000000'')))"
  by (intro utf8_header) (simp_all add: lit_def is_digit_def)

lemma prepare_cf_html_value:
  assumes enc: "utf8_encode fragment = Inr fb"
    and nf: "\<not> py_contains (blit ''<!--EndFragment-->'') fb"
  shows "prepare_cf_html fragment =
     Inr (map of_nat
            (cf_header (format_010d (int 115)) (format_010d (int (179 + length fb)))
               (format_010d (int 127)) (format_010d (int (165 + length fb))))
          @ blit ''<html><body>'' @ blit ''<!--StartFragment-->'' @ fb
          @ blit ''<!--EndFragment-->'' @ blit ''</body></html>'')"
proof -
  let ?doc = "blit ''<html><body>'' @ blit ''<!--StartFragment-->'' @ fb
          @ blit ''<!--EndFragment-->'' @ blit ''</body></html>''"
  have ld: "length ?doc = 64 + length fb" by (simp add: blit_def)
  have le: "length (blit ''<!--EndFragment-->'') = 18" by (simp add: blit_def)
  have l0: "length (cf_header (lit ''0000000000'') (lit ''0000000000'') (lit ''0000000000'')
                  (lit ''0000000000'')) = 115"
    by (simp add: cf_header_length lit_def)
  have fs: "py_find ?doc (blit ''<!--StartFragment-->'') = 12"
    by (simp add: py_find_def find_start)
  have fe: "py_find ?doc (blit ''<!--EndFragment-->'') = int (32 + length fb)"
    by (simp add: py_find_def find_end[OF nf])
  have h: "utf8_encode (cf_header (format_010d (int 115)) (format_010d (int (179 + length fb)))
               (format_010d (int 127)) (format_010d (int (165 + length fb))))
        = Inr (map of_nat (cf_header (format_010d (int 115)) (format_010d (int (179 + length fb)))
               (format_010d (int 127)) (format_010d (int (165 + length fb)))))"
    by (intro utf8_header format_010d_digits)
  have i1: "115 + (64 + int (length fb)) = int (179 + length fb)"
    and i2: "115 + (32 + int (length fb)) + 18 = int (165 + length fb)"
    and i3: "(115::int) + 12 = int 127" and i4: "(115::int) = int 115" by simp_all
  show ?thesis
    unfolding prepare_cf_html_def Let_def utf8_wrap[OF enc] utf8_header_dummy
    apply (simp only: sum.case length_map l0 ld le fs fe of_nat_add of_nat_numeral)
    apply (simp only: i1 i2 i3)
    apply (subst (1) i4)
    apply (simp only: h sum.case)
    apply simp
    done
qed

lemma byte_of_nat_eq:
  "a < 256 \<Longrightarrow> p < 256 \<Longrightarrow> (of_nat a :: byte) = of_nat p \<longleftrightarrow> a = p"
  by (simp add: word_of_nat_eq_iff take_bit_nat_eq_self)

lemma high_byte_not_ascii: "high_byte b \<Longrightarrow> p < 128 \<Longrightarrow> b \<noteq> of_nat p"
  by (auto simp: high_byte_def word_le_nat_alt unat_of_nat)

lemma high_byteI: "128 \<le> a \<Longrightarrow> a < 256 \<Longrightarrow> high_byte (of_nat a)"
  by (simp add: high_byte_def word_le_nat_alt unat_of_nat)

lemma utf8_char_cases:
  assumes "utf8_char c = Some enc"
  shows "(c < 128 \<and> enc = [of_nat c]) \<or> (128 \<le> c \<and> enc \<noteq> [] \<and> list_all high_byte enc)"
proof (cases "c < 128")
  case True
  with assms show ?thesis by (simp add: utf8_char_def)
next
  case False
  have m: "\<And>x::nat. x mod 64 < 64" by simp
  have h2: "c < 2048 \<Longrightarrow> c div 64 < 32" by simp
  have h3: "c < 65536 \<Longrightarrow> c div 4096 < 16" by simp
  have h4: "c < 1114112 \<Longrightarrow> c div 262144 < 8" by simp
  from False assms show ?thesis
    apply (simp add: utf8_char_def del: of_nat_add of_nat_numeral split: if_splits)
    subgoal using h2 m[of c] by (auto intro!: high_byteI simp del: of_nat_add of_nat_numeral)
    subgoal using h3 m[of c] m[of "c div 64"]
      by (auto intro!: high_byteI simp del: of_nat_add of_nat_numeral)
    subgoal using h4 m[of c] m[of "c div 64"] m[of "c div 4096"]
      by (auto intro!: high_byteI simp del: of_nat_add of_nat_numeral)
    done
qed

lemma utf8_prefix_ascii:
  "list_all (\<lambda>c. c < 128) pat \<Longrightarrow> utf8_encode s = Inr bs \<Longrightarrow> prefix (map of_nat pat) bs
   \<Longrightarrow> prefix pat s"
proof (induction pat arbitrary: s bs)
  case Nil
  show ?case by simp
next
  case (Cons p ps)
  from Cons.prems(3) obtain rest where bs: "bs = of_nat p # rest" and pr: "prefix (map of_nat ps) rest"
    by (cases bs) auto
  from Cons.prems(2) bs obtain c cs enc bs' where
    s: "s = c # cs" and e: "utf8_char c = Some enc" "utf8_encode cs = Inr bs'" "bs = enc @ bs'"
    by (cases s) (auto split: option.splits sum.splits)
  from Cons.prems(1) have p: "p < 128" and ps: "list_all (\<lambda>c. c < 128) ps" by simp_all
  from utf8_char_cases[OF e(1)] show ?case
  proof
    assume "c < 128 \<and> enc = [of_nat c]"
    with bs e p have "c = p" "rest = bs'" using byte_of_nat_eq[of c p] by auto
    with Cons.IH[OF ps e(2)] pr s show ?thesis by simp
  next
    assume a: "128 \<le> c \<and> enc \<noteq> [] \<and> list_all high_byte enc"
    then obtain b enc' where "enc = b # enc'" "high_byte b" by (cases enc) auto
    with bs e have "high_byte (of_nat p)" by simp
    with high_byte_not_ascii[OF _ p] show ?thesis by blast
  qed
qed

lemma contains_skip_high:
  assumes "p < 128" "list_all high_byte hi"
  shows "py_contains (of_nat p # x) (hi @ bs) \<Longrightarrow> py_contains (of_nat p # x) bs"
  using assms(2)
proof (induction hi)
  case Nil
  then show ?case by simp
next
  case (Cons b hi)
  from Cons.prems(2) have "b \<noteq> of_nat p" using high_byte_not_ascii[OF _ assms(1)] by simp
  with Cons show ?case by simp
qed

lemma utf8_contains_ascii:
  assumes "list_all (\<lambda>c. c < 128) pat" "pat \<noteq> []"
  shows "utf8_encode s = Inr bs \<Longrightarrow> py_contains (map of_nat pat) bs \<Longrightarrow> py_contains pat s"
proof (induction s arbitrary: bs)
  case Nil
  with assms(2) show ?case by simp
next
  case (Cons c cs)
  from Cons.prems(1) obtain enc bs' where
    e: "utf8_char c = Some enc" "utf8_encode cs = Inr bs'" "bs = enc @ bs'"
    by (auto split: option.splits sum.splits)
  from assms obtain p ps where pat: "pat = p # ps" "p < 128" by (cases pat) auto
  from utf8_char_cases[OF e(1)] show ?case
  proof
    assume a: "c < 128 \<and> enc = [of_nat c]"
    with Cons.prems(2) e have "prefix (map of_nat pat) bs \<or> py_contains (map of_nat pat) bs'"
      by simp
    then show ?thesis
    proof
      assume "prefix (map of_nat pat) bs"
      from utf8_prefix_ascii[OF assms(1) Cons.prems(1) this] show ?thesis by simp
    next
      assume "py_contains (map of_nat pat) bs'"
      from Cons.IH[OF e(2) this] show ?thesis by simp
    qed
  next
    assume a: "128 \<le> c \<and> enc \<noteq> [] \<and> list_all high_byte enc"
    from Cons.prems(2) e pat have "py_contains (of_nat p # map of_nat ps) (enc @ bs')" by simp
    from contains_skip_high[OF pat(2) _ this] a have "py_contains (map of_nat pat) bs'"
      using pat by simp
    from Cons.IH[OF e(2) this] show ?thesis by simp
  qed
qed

lemma end_marker_bytes:
  "blit ''<!--EndFragment-->'' = map of_nat (lit ''<!--EndFragment-->'')"
  by (simp add: blit_def lit_def)

lemma no_marker_in_bytes:
  assumes "utf8_encode fragment = Inr fb"
    and "\<not> py_contains (lit ''<!--EndFragment-->'') fragment"
  shows "\<not> py_contains (blit ''<!--EndFragment-->'') fb"
proof
  assume "py_contains (blit ''<!--EndFragment-->'') fb"
  then have "py_contains (map of_nat (lit ''<!--EndFragment-->'')) fb"
    by (simp only: end_marker_bytes)
  moreover have "list_all (\<lambda>c. c < 128) (lit ''<!--EndFragment-->'')" "lit ''<!--EndFragment-->'' \<noteq> []"
    by (simp_all add: lit_def)
  ultimately have "py_contains (lit ''<!--EndFragment-->'') fragment"
    using utf8_contains_ascii assms(1) by blast
  with assms(2) show False by simp
qed

text \<open>
  Claim C1, as amended. For every fragment that has a UTF-8 encoding (no surrogate code
  point), that does not contain the text of the end sentinel, and whose payload stays below
  \<open>10^10\<close> octets: \<open>_prepare_cf_html\<close> returns a header followed by the UTF-8 encoding of
  the wrapped document; the header is the encoded header text with four fields of ten
  decimal digits; it is as long as the header measured with the zero placeholders;
  StartHTML is the length of the header, EndHTML the length of the payload, so the octets
  between them are the encoding of the wrapped document; StartFragment is the number of
  octets before the start sentinel and EndFragment the number of octets up to the end of
  the end sentinel.
\<close>

theorem prepare_cf_html_offsets:
  assumes "utf8_encode fragment = Inr fb"
    and "\<not> py_contains (lit ''<!--EndFragment-->'') fragment"
    and "length fb + 179 < 10 ^ 10"
  shows "\<exists>hdr h0 f1 f2 f3 f4 payload doc.
      prepare_cf_html fragment = Inr payload
    \<and> payload = hdr @ doc
    \<and> doc = blit ''<html><body>'' @ blit ''<!--StartFragment-->'' @ fb
             @ blit ''<!--EndFragment-->'' @ blit ''</body></html>''
    \<and> utf8_encode (wrap_fragment fragment) = Inr doc
    \<and> utf8_encode (cf_header f1 f2 f3 f4) = Inr hdr
    \<and> utf8_encode (cf_header (lit ''0000000000'') (lit ''0000000000'') (lit ''0000000000'')
                       (lit ''0000000000'')) = Inr h0
    \<and> length h0 = length hdr
    \<and> length f1 = 10 \<and> list_all is_digit f1 \<and> dec_value f1 = length hdr
    \<and> length f2 = 10 \<and> list_all is_digit f2 \<and> dec_value f2 = length payload
    \<and> length f3 = 10 \<and> list_all is_digit f3
    \<and> dec_value f3 = length (hdr @ blit ''<html><body>'')
    \<and> length f4 = 10 \<and> list_all is_digit f4
    \<and> dec_value f4 = length (hdr @ blit ''<html><body>'' @ blit ''<!--StartFragment-->'' @ fb
                               @ blit ''<!--EndFragment-->'')
    \<and> take (dec_value f2 - dec_value f1) (drop (dec_value f1) payload) = doc"
proof -
  let ?f1 = "format_010d (int 115)" and ?f2 = "format_010d (int (179 + length fb))"
  let ?f3 = "format_010d (int 127)" and ?f4 = "format_010d (int (165 + length fb))"
  let ?hdr = "map of_nat (cf_header ?f1 ?f2 ?f3 ?f4) :: byte list"
  let ?h0 = "map of_nat (cf_header (lit ''0000000000'') (lit ''0000000000'') (lit ''0000000000'')
                       (lit ''0000000000'')) :: byte list"
  let ?doc = "blit ''<html><body>'' @ blit ''<!--StartFragment-->'' @ fb
             @ blit ''<!--EndFragment-->'' @ blit ''</body></html>''"
  have nf: "\<not> py_contains (blit ''<!--EndFragment-->'') fb"
    by (rule no_marker_in_bytes[OF assms(1,2)])
  have b: "(115::nat) < 10 ^ 10" "179 + length fb < 10 ^ 10" "(127::nat) < 10 ^ 10"
    "165 + length fb < 10 ^ 10" using assms(3) by simp_all
  note l = b [THEN format_010d_length]
  have lh: "length ?hdr = 115" unfolding length_map cf_header_length l by simp
  have 1: "prepare_cf_html fragment = Inr (?hdr @ ?doc)"
    by (rule prepare_cf_html_value[OF assms(1) nf])
  have 2: "utf8_encode (wrap_fragment fragment) = Inr ?doc" by (rule utf8_wrap[OF assms(1)])
  have 3: "utf8_encode (cf_header ?f1 ?f2 ?f3 ?f4) = Inr ?hdr"
    by (intro utf8_header format_010d_digits)
  have 4: "utf8_encode (cf_header (lit ''0000000000'') (lit ''0000000000'') (lit ''0000000000'')
                       (lit ''0000000000'')) = Inr ?h0" by (rule utf8_header_dummy)
  have 5: "length ?h0 = length ?hdr" unfolding length_map cf_header_length l by (simp add: lit_def)
  have ld: "length ?doc = 64 + length fb" by (simp add: blit_def)
  have 6: "dec_value ?f1 = length ?hdr" "dec_value ?f2 = length (?hdr @ ?doc)"
    "dec_value ?f3 = length (?hdr @ blit ''<html><body>'')"
    "dec_value ?f4 = length (?hdr @ blit ''<html><body>'' @ blit ''<!--StartFragment-->'' @ fb
                               @ blit ''<!--EndFragment-->'')"
    unfolding format_010d_digits length_append lh ld by (simp_all add: blit_def)
  have 7: "take (dec_value ?f2 - dec_value ?f1) (drop (dec_value ?f1) (?hdr @ ?doc)) = ?doc"
    unfolding 6 by simp
  show ?thesis
    apply (rule exI[of _ ?hdr], rule exI[of _ ?h0], rule exI[of _ ?f1], rule exI[of _ ?f2],
           rule exI[of _ ?f3], rule exI[of _ ?f4], rule exI[of _ "?hdr @ ?doc"], rule exI[of _ ?doc])
    apply (intro conjI 1 2 3 4 5 6 7 l format_010d_digits refl)
    done
qed

theorem prepare_cf_html_offsets_witness:
  "utf8_encode (lit ''<p>'' @ [233, 8364] @ lit ''</p>'')
     = Inr (blit ''<p>'' @ [195, 169, 226, 130, 172] @ blit ''</p>'')
   \<and> \<not> py_contains (lit ''<!--EndFragment-->'') (lit ''<p>'' @ [233, 8364] @ lit ''</p>'')
   \<and> (\<exists>hdr h0 f1 f2 f3 f4 payload doc.
      prepare_cf_html (lit ''<p>'' @ [233, 8364] @ lit ''</p>'') = Inr payload
    \<and> payload = hdr @ doc
    \<and> doc = blit ''<html><body>'' @ blit ''<!--StartFragment-->''
             @ (blit ''<p>'' @ [195, 169, 226, 130, 172] @ blit ''</p>'')
             @ blit ''<!--EndFragment-->'' @ blit ''</body></html>''
    \<and> utf8_encode (wrap_fragment (lit ''<p>'' @ [233, 8364] @ lit ''</p>'')) = Inr doc
    \<and> utf8_encode (cf_header f1 f2 f3 f4) = Inr hdr
    \<and> utf8_encode (cf_header (lit ''0000000000'') (lit ''0000000000'') (lit ''0000000000'')
                       (lit ''0000000000'')) = Inr h0
    \<and> length h0 = length hdr
    \<and> length f1 = 10 \<and> list_all is_digit f1 \<and> dec_value f1 = length hdr
    \<and> length f2 = 10 \<and> list_all is_digit f2 \<and> dec_value f2 = length payload
    \<and> length f3 = 10 \<and> list_all is_digit f3
    \<and> dec_value f3 = length (hdr @ blit ''<html><body>'')
    \<and> length f4 = 10 \<and> list_all is_digit f4
    \<and> dec_value f4 = length (hdr @ blit ''<html><body>'' @ blit ''<!--StartFragment-->''
                               @ (blit ''<p>'' @ [195, 169, 226, 130, 172] @ blit ''</p>'')
                               @ blit ''<!--EndFragment-->'')
    \<and> take (dec_value f2 - dec_value f1) (drop (dec_value f1) payload) = doc)"
proof -
  let ?frag = "lit ''<p>'' @ [233, 8364] @ lit ''</p>''"
  let ?fb = "blit ''<p>'' @ [195, 169, 226, 130, 172] @ blit ''</p>''"
  have e: "utf8_encode ?frag = Inr ?fb"
    by (simp add: lit_def blit_def utf8_char_def)
  have n: "\<not> py_contains (lit ''<!--EndFragment-->'') ?frag"
    by (simp add: lit_def)
  have s: "length ?fb + 179 < 10 ^ 10" by (simp add: blit_def)
  from e n prepare_cf_html_offsets [OF e n s] show ?thesis by blast
qed

theorem prepare_cf_html_surrogate:
  "prepare_cf_html [55296] = Inl (UnicodeEncodeError 55296)"
  by (simp add: prepare_cf_html_def wrap_fragment_def utf8_encode_append utf8_literals
      utf8_char_def)

text \<open>The other two conditions are needed as well. A fragment that contains the text of
  the end sentinel gets an EndFragment offset that ends at that text, not at the sentinel
  (here 165, while the sentinel ends at 183).\<close>

lemma prepare_cf_html_marker_inside:
  "prepare_cf_html (lit ''<!--EndFragment-->'') =
     Inr (map of_nat (cf_header (lit ''0000000115'') (lit ''0000000197'') (lit ''0000000127'')
                        (lit ''0000000165''))
          @ blit ''<html><body>'' @ blit ''<!--StartFragment-->'' @ blit ''<!--EndFragment-->''
          @ blit ''<!--EndFragment-->'' @ blit ''</body></html>'')"
  "length (map of_nat (cf_header (lit ''0000000115'') (lit ''0000000197'') (lit ''0000000127'')
                        (lit ''0000000165'')) :: byte list) + length (blit ''<html><body>'')
   + length (blit ''<!--StartFragment-->'') + length (blit ''<!--EndFragment-->'')
   + length (blit ''<!--EndFragment-->'') = 183"
proof -
  let ?doc = "blit ''<html><body>'' @ blit ''<!--StartFragment-->'' @ blit ''<!--EndFragment-->''
          @ blit ''<!--EndFragment-->'' @ blit ''</body></html>''"
  have l0: "length (cf_header (lit ''0000000000'') (lit ''0000000000'') (lit ''0000000000'')
                  (lit ''0000000000'')) = 115"
    by (simp add: cf_header_length lit_def)
  have ld: "length ?doc = 82" by (simp add: blit_def)
  have le: "length (blit ''<!--EndFragment-->'') = 18" by (simp add: blit_def)
  have fs: "py_find ?doc (blit ''<!--StartFragment-->'') = 12"
    by (simp add: py_find_def find_start)
  have fe: "py_find ?doc (blit ''<!--EndFragment-->'') = 32"
    by (simp add: py_find_def blit_values)
  have r7: "\<And>x::nat. replicate 7 x = [x, x, x, x, x, x, x]" by (simp add: numeral_eq_Suc)
  have f: "format_010d 115 = lit ''0000000115''" "format_010d 197 = lit ''0000000197''"
    "format_010d 127 = lit ''0000000127''" "format_010d 165 = lit ''0000000165''"
    by (simp_all add: format_010d_def str_nat.simps lit_def r7)
  have h: "utf8_encode (cf_header (lit ''0000000115'') (lit ''0000000197'') (lit ''0000000127'')
                        (lit ''0000000165''))
        = Inr (map of_nat (cf_header (lit ''0000000115'') (lit ''0000000197'') (lit ''0000000127'')
                        (lit ''0000000165'')))"
    by (intro utf8_header) (simp_all add: lit_def is_digit_def)
  have w: "utf8_encode (wrap_fragment (lit ''<!--EndFragment-->'')) = Inr ?doc"
    by (rule utf8_wrap) (rule utf8_literals)
  show "prepare_cf_html (lit ''<!--EndFragment-->'') =
     Inr (map of_nat (cf_header (lit ''0000000115'') (lit ''0000000197'') (lit ''0000000127'')
                        (lit ''0000000165''))
          @ ?doc)"
    unfolding prepare_cf_html_def Let_def w utf8_header_dummy
    apply (simp only: sum.case length_map l0 ld le fs fe of_nat_numeral)
    apply (simp add: f h)
    done
  show "length (map of_nat (cf_header (lit ''0000000115'') (lit ''0000000197'') (lit ''0000000127'')
                        (lit ''0000000165'')) :: byte list) + length (blit ''<html><body>'')
   + length (blit ''<!--StartFragment-->'') + length (blit ''<!--EndFragment-->'')
   + length (blit ''<!--EndFragment-->'') = 183"
    by (simp add: cf_header_length lit_def blit_def)
qed

text \<open>A payload of \<open>10^10\<close> octets or more gets a header longer than the 115 octets that
  its StartHTML field states.\<close>

lemma prepare_cf_html_too_long:
  assumes "utf8_encode fragment = Inr fb"
    and "\<not> py_contains (lit ''<!--EndFragment-->'') fragment"
    and "10 ^ 10 \<le> length fb + 179"
  shows "\<exists>hdr f1 f2 f3 f4 doc.
      prepare_cf_html fragment = Inr (hdr @ doc)
    \<and> utf8_encode (wrap_fragment fragment) = Inr doc
    \<and> utf8_encode (cf_header f1 f2 f3 f4) = Inr hdr
    \<and> dec_value f1 = 115 \<and> 115 < length hdr"
proof -
  let ?f1 = "format_010d (int 115)" and ?f2 = "format_010d (int (179 + length fb))"
  let ?f3 = "format_010d (int 127)" and ?f4 = "format_010d (int (165 + length fb))"
  let ?hdr = "map of_nat (cf_header ?f1 ?f2 ?f3 ?f4) :: byte list"
  let ?doc = "blit ''<html><body>'' @ blit ''<!--StartFragment-->'' @ fb
             @ blit ''<!--EndFragment-->'' @ blit ''</body></html>''"
  have nf: "\<not> py_contains (blit ''<!--EndFragment-->'') fb"
    by (rule no_marker_in_bytes[OF assms(1,2)])
  have 1: "prepare_cf_html fragment = Inr (?hdr @ ?doc)"
    by (rule prepare_cf_html_value[OF assms(1) nf])
  have 2: "utf8_encode (wrap_fragment fragment) = Inr ?doc" by (rule utf8_wrap[OF assms(1)])
  have 3: "utf8_encode (cf_header ?f1 ?f2 ?f3 ?f4) = Inr ?hdr"
    by (intro utf8_header format_010d_digits)
  have "10 ^ 10 \<le> 179 + length fb" using assms(3) by simp
  note g = format_010d_long[OF this]
  have l: "length ?f1 = 10" "length ?f3 = 10" by (intro format_010d_length; simp)+
  have m: "10 \<le> length ?f4" by (simp add: format_010d_def)
  have "length ?hdr = 75 + length ?f1 + length ?f2 + length ?f3 + length ?f4"
    unfolding length_map cf_header_length by simp
  then have 4: "115 < length ?hdr" using g l m by linarith
  have 5: "dec_value ?f1 = 115" by (rule format_010d_digits)
  from 1 2 3 4 5 show ?thesis by blast
qed

section \<open>Properties of the float arithmetic\<close>

lemma pow2_powi: "pow2 k = 2 powi k"
  by (simp add: pow2_def power_int_def field_simps)

lemma pow2_pos [simp]: "0 < pow2 k"
  by (simp add: pow2_powi)

lemma pow2_add: "pow2 (a + b) = pow2 a * pow2 b"
  by (simp add: pow2_powi power_int_add)

lemma pow2_mono: "a \<le> b \<Longrightarrow> pow2 a \<le> pow2 b"
  by (simp add: pow2_powi power_int_increasing)

lemma pow2_strict_mono: "a < b \<Longrightarrow> pow2 a < pow2 b"
  by (simp add: pow2_powi power_int_strict_increasing)

lemma pow2_nat: "0 \<le> k \<Longrightarrow> pow2 k = 2 ^ nat k"
  by (simp add: pow2_def)

lemma pow2_0 [simp]: "pow2 0 = 1"
  by (simp add: pow2_def)

lemma pow2_half: "pow2 (k - 1) = pow2 k / 2"
  using pow2_add[of "k - 1" 1] by (simp add: pow2_def)

lemma ilog2_bounds:
  assumes "0 < x"
  shows "pow2 (ilog2 x) \<le> x" "x < pow2 (ilog2 x + 1)"
proof -
  obtain a b where q: "quotient_of x = (a, b)" by (cases "quotient_of x") auto
  then have b: "0 < b" and x: "x = of_int a / of_int b"
    using quotient_of_denom_pos quotient_of_div by blast+
  with assms have a: "0 < a" by (simp add: zero_less_divide_iff)
  let ?la = "bitlen a" and ?lb = "bitlen b"
  from bitlen_bounds[OF a] have a1: "2 ^ nat (?la - 1) \<le> a" and a2: "a < 2 ^ nat ?la" by simp_all
  from bitlen_bounds[OF b] have b1: "2 ^ nat (?lb - 1) \<le> b" and b2: "b < 2 ^ nat ?lb" by simp_all
  have la: "1 \<le> ?la" using a by (simp add: bitlen_def floorlog_def)
  have lb: "1 \<le> ?lb" using b by (simp add: bitlen_def floorlog_def)
  have ra1: "pow2 (?la - 1) \<le> of_int a"
  proof -
    have "(of_int (2 ^ nat (?la - 1)) :: rat) \<le> of_int a" using a1 by (simp only: of_int_le_iff)
    then show ?thesis using la by (simp add: pow2_nat)
  qed
  have ra2: "of_int a < pow2 ?la"
  proof -
    have "(of_int a :: rat) < of_int (2 ^ nat ?la)" using a2 by (simp only: of_int_less_iff)
    then show ?thesis using la by (simp add: pow2_nat)
  qed
  have rb1: "pow2 (?lb - 1) \<le> of_int b"
  proof -
    have "(of_int (2 ^ nat (?lb - 1)) :: rat) \<le> of_int b" using b1 by (simp only: of_int_le_iff)
    then show ?thesis using lb by (simp add: pow2_nat)
  qed
  have rb2: "of_int b < pow2 ?lb"
  proof -
    have "(of_int b :: rat) < of_int (2 ^ nat ?lb)" using b2 by (simp only: of_int_less_iff)
    then show ?thesis using lb by (simp add: pow2_nat)
  qed
  let ?k = "?la - ?lb"
  have bpos: "(0::rat) < of_int b" using b by simp
  have up: "x < pow2 (?k + 1)"
  proof -
    have "of_int a < pow2 (?k + 1) * pow2 (?lb - 1)"
      using ra2 by (simp add: pow2_add[symmetric])
    also have "\<dots> \<le> pow2 (?k + 1) * of_int b"
      using rb1 by (simp add: mult_left_mono less_imp_le)
    finally show ?thesis unfolding x using bpos by (simp add: pos_divide_less_eq)
  qed
  have lo: "pow2 (?k - 1) \<le> x"
  proof -
    have "pow2 (?k - 1) * of_int b \<le> pow2 (?k - 1) * pow2 ?lb"
      using rb2 by (simp add: mult_left_mono less_imp_le)
    also have "\<dots> = pow2 (?la - 1)" by (simp add: pow2_add[symmetric])
    also have "\<dots> \<le> of_int a" by (rule ra1)
    finally show ?thesis unfolding x using bpos by (simp add: pos_le_divide_eq)
  qed
  have i: "ilog2 x = (if pow2 ?k \<le> x then ?k else ?k - 1)"
    by (simp add: ilog2_def q Let_def)
  show "pow2 (ilog2 x) \<le> x" using lo by (simp add: i)
  show "x < pow2 (ilog2 x + 1)" using up by (auto simp: i not_le)
qed

lemma ilog2_unique:
  assumes "pow2 e \<le> x" "x < pow2 (e + 1)"
  shows "ilog2 x = e"
proof -
  have x: "0 < x" using assms(1) pow2_pos[of e] by linarith
  note b = ilog2_bounds[OF x]
  have "\<not> ilog2 x < e"
  proof
    assume "ilog2 x < e"
    then have "pow2 (ilog2 x + 1) \<le> pow2 e" by (intro pow2_mono) simp
    with b(2) assms(1) show False by linarith
  qed
  moreover have "\<not> e < ilog2 x"
  proof
    assume "e < ilog2 x"
    then have "pow2 (e + 1) \<le> pow2 (ilog2 x)" by (intro pow2_mono) simp
    with b(1) assms(2) show False by linarith
  qed
  ultimately show ?thesis by linarith
qed

lemma ilog2_mono_ge: "pow2 e \<le> x \<Longrightarrow> e \<le> ilog2 x"
proof (rule ccontr)
  assume a: "pow2 e \<le> x" "\<not> e \<le> ilog2 x"
  then have x: "0 < x" using pow2_pos[of e] by linarith
  from a have "pow2 (ilog2 x + 1) \<le> pow2 e" by (intro pow2_mono) simp
  with ilog2_bounds(2)[OF x] a(1) show False by linarith
qed

lemma ilog2_less: "0 < x \<Longrightarrow> x < pow2 e \<Longrightarrow> ilog2 x < e"
proof (rule ccontr)
  assume a: "0 < x" "x < pow2 e" "\<not> ilog2 x < e"
  then have "pow2 e \<le> pow2 (ilog2 x)" by (intro pow2_mono) simp
  with ilog2_bounds(1)[OF a(1)] a(2) show False by linarith
qed

lemma round_half_even_error: "\<bar>of_int (round_half_even y) - y\<bar> \<le> 1 / 2"
proof -
  define f where "f = \<lfloor>y\<rfloor>"
  have 1: "of_int f \<le> y" and 2: "y < of_int f + 1" unfolding f_def by linarith+
  consider "y - of_int f < 1 / 2" | "1 / 2 < y - of_int f" | "y - of_int f = 1 / 2"
    by linarith
  then show ?thesis
  proof cases
    case 1
    then have "round_half_even y = f" by (simp add: round_half_even_def Let_def f_def)
    with 1 \<open>of_int f \<le> y\<close> show ?thesis by simp
  next
    case 2
    then have "round_half_even y = f + 1" by (simp add: round_half_even_def Let_def f_def)
    with 2 \<open>y < of_int f + 1\<close> show ?thesis by simp
  next
    case 3
    then have "round_half_even y = f \<or> round_half_even y = f + 1"
      by (simp add: round_half_even_def Let_def f_def)
    with 3 show ?thesis by auto
  qed
qed

lemma round_half_even_ge: "of_int j \<le> y \<Longrightarrow> j \<le> round_half_even y"
proof -
  assume "of_int j \<le> y"
  then have "j \<le> \<lfloor>y\<rfloor>" by (simp add: le_floor_iff)
  then show ?thesis unfolding round_half_even_def Let_def by auto
qed

lemma round_half_even_le: "y \<le> of_int j \<Longrightarrow> round_half_even y \<le> j"
proof -
  assume a: "y \<le> of_int j"
  show ?thesis
  proof (cases "y = of_int j")
    case True
    then show ?thesis unfolding round_half_even_def Let_def by simp
  next
    case False
    with a have "y < of_int j" by simp
    then have "\<lfloor>y\<rfloor> < j" by (simp add: floor_less_iff)
    then show ?thesis unfolding round_half_even_def Let_def by auto
  qed
qed

lemma round_half_even_int [simp]: "round_half_even (of_int j) = j"
  unfolding round_half_even_def Let_def by simp

lemma pow2_nonneg [simp]: "0 \<le> pow2 k"
  using pow2_pos[of k] by (rule less_imp_le)

lemma pow2_nonzero [simp]: "pow2 k \<noteq> 0"
  by (simp add: pow2_powi)

lemma round_to_quantum_error: "\<bar>round_to_quantum q a - a\<bar> \<le> pow2 q / 2"
proof -
  let ?m = "round_half_even (a / pow2 q)"
  have p: "0 < pow2 q" by simp
  have "round_to_quantum q a - a = (of_int ?m - a / pow2 q) * pow2 q"
    using p by (simp add: round_to_quantum_def field_simps)
  then have "\<bar>round_to_quantum q a - a\<bar> = \<bar>of_int ?m - a / pow2 q\<bar> * pow2 q"
    using p by (simp add: abs_mult)
  also have "\<dots> \<le> (1 / 2) * pow2 q"
    using round_half_even_error[of "a / pow2 q"] p by (intro mult_right_mono) simp_all
  finally show ?thesis by simp
qed

lemma round_to_quantum_ge: "of_int j * pow2 q \<le> a \<Longrightarrow> of_int j * pow2 q \<le> round_to_quantum q a"
proof -
  assume "of_int j * pow2 q \<le> a"
  then have "of_int j \<le> a / pow2 q" by (simp add: pos_le_divide_eq)
  then have "j \<le> round_half_even (a / pow2 q)" by (rule round_half_even_ge)
  then have "(of_int j :: rat) \<le> of_int (round_half_even (a / pow2 q))" by (simp only: of_int_le_iff)
  then show ?thesis unfolding round_to_quantum_def by (intro mult_right_mono) simp_all
qed

lemma round_to_quantum_le: "a \<le> of_int j * pow2 q \<Longrightarrow> round_to_quantum q a \<le> of_int j * pow2 q"
proof -
  assume "a \<le> of_int j * pow2 q"
  then have "a / pow2 q \<le> of_int j" by (simp add: pos_divide_le_eq)
  then have "round_half_even (a / pow2 q) \<le> j" by (rule round_half_even_le)
  then have "(of_int (round_half_even (a / pow2 q)) :: rat) \<le> of_int j" by (simp only: of_int_le_iff)
  then show ?thesis unfolding round_to_quantum_def by (intro mult_right_mono) simp_all
qed

lemma pow2_52: "pow2 52 = 2 ^ 52"
  by (simp add: pow2_def)

lemma pow2_53: "pow2 53 = 2 ^ 53"
  by (simp add: pow2_def)

lemma pow2_split52: "pow2 e = of_int (2 ^ 52) * pow2 (e - 52)"
  using pow2_add[of 52 "e - 52"] by (simp add: pow2_52)

lemma pow2_split53: "pow2 (e + 1) = of_int (2 ^ 53) * pow2 (e - 52)"
proof -
  have "e + 1 = 53 + (e - 52)" by simp
  then have "pow2 (e + 1) = pow2 53 * pow2 (e - 52)" by (simp only: pow2_add)
  then show ?thesis by (simp add: pow2_53)
qed

text \<open>The nearest double of a positive rational in the normal range.\<close>

lemma round_double_normal:
  assumes "0 < x" "- 1022 \<le> ilog2 x"
  shows "round_double x =
           (if pow2 1024 \<le> round_to_quantum (ilog2 x - 52) x then PosInf
            else Finite (round_to_quantum (ilog2 x - 52) x))"
  using assms by (simp add: round_double_def Let_def max_def)

lemma nearest_bounds:
  assumes "0 < x"
  shows "pow2 (ilog2 x) \<le> round_to_quantum (ilog2 x - 52) x"
    "round_to_quantum (ilog2 x - 52) x \<le> pow2 (ilog2 x + 1)"
    "\<bar>round_to_quantum (ilog2 x - 52) x - x\<bar> \<le> x / 2 ^ 53"
proof -
  let ?e = "ilog2 x" and ?q = "ilog2 x - 52"
  note b = ilog2_bounds[OF assms]
  have "of_int (2 ^ 52) * pow2 ?q \<le> x" using b(1) pow2_split52[of ?e] by simp
  from round_to_quantum_ge[OF this] show "pow2 ?e \<le> round_to_quantum ?q x"
    using pow2_split52[of ?e] by simp
  have "x \<le> of_int (2 ^ 53) * pow2 ?q" using b(2) pow2_split53[of ?e] by simp
  from round_to_quantum_le[OF this] show "round_to_quantum ?q x \<le> pow2 (?e + 1)"
    using pow2_split53[of ?e] by simp
  have "pow2 ?q / 2 = pow2 ?e / 2 ^ 53" using pow2_split52[of ?e] by simp
  also have "\<dots> \<le> x / 2 ^ 53" using b(1) by (simp add: divide_right_mono)
  finally show "\<bar>round_to_quantum ?q x - x\<bar> \<le> x / 2 ^ 53"
    using round_to_quantum_error[of ?q x] by linarith
qed

lemma round_double_finite:
  assumes "pow2 (- 1022) \<le> x" "x < pow2 1023"
  shows "round_double x = Finite (round_to_quantum (ilog2 x - 52) x)"
proof -
  have x: "0 < x" using assms(1) pow2_pos[of "- 1022"] by linarith
  have lo: "- 1022 \<le> ilog2 x" using assms(1) by (rule ilog2_mono_ge)
  have "ilog2 x < 1023" using x assms(2) by (rule ilog2_less)
  then have "pow2 (ilog2 x + 1) \<le> pow2 1023" by (intro pow2_mono) simp
  also have "\<dots> < pow2 1024" by (intro pow2_strict_mono) simp
  finally have "round_to_quantum (ilog2 x - 52) x < pow2 1024"
    using nearest_bounds(2)[OF x] by linarith
  then show ?thesis using round_double_normal[OF x lo] by simp
qed

lemma round_double_overflow:
  assumes "pow2 1024 \<le> x"
  shows "round_double x = PosInf"
proof -
  have x: "0 < x" using assms pow2_pos[of 1024] by linarith
  have e: "1024 \<le> ilog2 x" using assms by (rule ilog2_mono_ge)
  then have lo: "- 1022 \<le> ilog2 x" by simp
  have "pow2 1024 \<le> pow2 (ilog2 x)" using e by (rule pow2_mono)
  with nearest_bounds(1)[OF x] have "pow2 1024 \<le> round_to_quantum (ilog2 x - 52) x" by linarith
  then show ?thesis using round_double_normal[OF x lo] by simp
qed

section \<open>\<open>format_number\<close> on integers\<close>

lemma pow2_1023: "pow2 1023 = 2 ^ 1023"
  by (simp add: pow2_def)

lemma pow2_1024: "pow2 1024 = 2 ^ 1024"
  by (simp add: pow2_def)

lemma int_truediv_value:
  assumes "10000 \<le> n" "n < 10000 * 2 ^ 1023"
  shows "\<exists>v. int_truediv n 10000 = Inr (Finite v) \<and> 0 < v
           \<and> \<bar>v - of_int n / 10000\<bar> \<le> (of_int n / 10000) / 2 ^ 53"
proof -
  let ?x = "of_int n / 10000 :: rat"
  let ?v = "round_to_quantum (ilog2 ?x - 52) ?x"
  have "(10000 :: rat) \<le> of_int n" using assms(1) by (simp only: of_int_le_iff [of 10000 n, symmetric] of_int_numeral)
  then have one: "1 \<le> ?x" by simp
  then have x: "0 < ?x" by linarith
  have lo: "pow2 (- 1022) \<le> ?x"
  proof -
    have "pow2 (- 1022) \<le> pow2 0" by (intro pow2_mono) simp
    with one show ?thesis by simp
  qed
  have "(of_int n :: rat) < of_int (10000 * 2 ^ 1023)" using assms(2) by (simp only: of_int_less_iff)
  then have hi: "?x < pow2 1023" unfolding pow2_1023 by simp
  have r: "round_double ?x = Finite ?v" using lo hi by (rule round_double_finite)
  have "0 < pow2 (ilog2 ?x)" by simp
  with nearest_bounds(1)[OF x] have v: "0 < ?v" by linarith
  have "int_truediv n 10000 = Inr (Finite ?v)" by (simp add: int_truediv_def r)
  with v nearest_bounds(3)[OF x] show ?thesis by blast
qed

lemma int_truediv_overflow:
  assumes "10000 * 2 ^ 1024 \<le> n"
  shows "int_truediv n 10000
           = Inl (OverflowError (lit ''integer division result too large for a float''))"
proof -
  have "(of_int (10000 * 2 ^ 1024) :: rat) \<le> of_int n" using assms by (simp only: of_int_le_iff)
  then have "pow2 1024 \<le> of_int n / 10000" unfolding pow2_1024 by simp
  then have "round_double (of_int n / 10000) = PosInf" by (rule round_double_overflow)
  then show ?thesis by (simp add: int_truediv_def)
qed

lemma format_1f_pos:
  "0 < v \<Longrightarrow> format_1f (Finite v)
     = str_nat (nat (round_half_even (v * 10)) div 10) @ [46]
       @ str_nat (nat (round_half_even (v * 10)) mod 10)"
  by (simp add: format_1f_def Let_def)

lemma tenth_bound:
  assumes v: "0 < v" and n: "0 < n"
    and e: "\<bar>v - of_int n / 10000\<bar> \<le> (of_int n / 10000) / 2 ^ 53"
  shows "0 \<le> round_half_even (v * 10)"
    "2 ^ 53 * \<bar>1000 * round_half_even (v * 10) - n\<bar> \<le> 500 * 2 ^ 53 + n"
proof -
  let ?T = "round_half_even (v * 10)"
  have "of_int 0 \<le> v * 10" using v by simp
  then show "0 \<le> ?T" by (rule round_half_even_ge)
  have a: "\<bar>of_int ?T - v * 10\<bar> \<le> 1 / 2" by (rule round_half_even_error)
  have "\<bar>1000 * of_int ?T - of_int n\<bar>
          = \<bar>1000 * (of_int ?T - v * 10) + 10000 * (v - of_int n / 10000)\<bar>" (is "?L = _")
    by (simp add: algebra_simps)
  also have "\<dots> \<le> 1000 * \<bar>of_int ?T - v * 10\<bar> + 10000 * \<bar>v - of_int n / 10000\<bar>"
  proof -
    have "\<And>a b :: rat. \<bar>1000 * a + 10000 * b\<bar> \<le> 1000 * \<bar>a\<bar> + 10000 * \<bar>b\<bar>"
      by (rule order_trans [OF abs_triangle_ineq]) (simp add: abs_mult)
    then show ?thesis .
  qed
  also have "\<dots> \<le> 1000 * (1 / 2) + 10000 * ((of_int n / 10000) / 2 ^ 53)"
    using a e by (intro add_mono mult_left_mono) simp_all
  finally have "?L \<le> 500 + of_int n / 2 ^ 53" by simp
  then have "2 ^ 53 * ?L \<le> 2 ^ 53 * (500 + of_int n / 2 ^ 53)"
    by (intro mult_left_mono) simp_all
  then have "(of_int (2 ^ 53 * \<bar>1000 * ?T - n\<bar>) :: rat) \<le> of_int (500 * 2 ^ 53 + n)"
    by (simp add: algebra_simps)
  then show "2 ^ 53 * \<bar>1000 * ?T - n\<bar> \<le> 500 * 2 ^ 53 + n" by (simp only: of_int_le_iff)
qed

lemma format_number_small:
  "n < 10000 \<Longrightarrow> format_number so (JInt n) = Inr (str_int n)"
  by (simp add: format_number_def)

lemma format_number_large:
  assumes "10000 \<le> n" "n < 10000 * 2 ^ 1023"
  shows "\<exists>t. format_number so (JInt n)
               = Inr (str_nat (t div 10) @ [46] @ str_nat (t mod 10) @ unit_wan)
             \<and> 2 ^ 53 * \<bar>1000 * int t - n\<bar> \<le> 500 * 2 ^ 53 + n"
proof -
  from int_truediv_value[OF assms] obtain v where
    d: "int_truediv n 10000 = Inr (Finite v)" and v: "0 < v"
    and e: "\<bar>v - of_int n / 10000\<bar> \<le> (of_int n / 10000) / 2 ^ 53" by blast
  have n: "0 < n" using assms(1) by simp
  let ?T = "round_half_even (v * 10)"
  note b = tenth_bound[OF v n e]
  have t: "int (nat ?T) = ?T" using b(1) by simp
  have "format_number so (JInt n)
          = Inr (str_nat (nat ?T div 10) @ [46] @ str_nat (nat ?T mod 10) @ unit_wan)"
    using assms(1) by (simp add: format_number_def d format_1f_pos[OF v])
  moreover have "2 ^ 53 * \<bar>1000 * int (nat ?T) - n\<bar> \<le> 500 * 2 ^ 53 + n"
    unfolding t by (rule b(2))
  ultimately show ?thesis by blast
qed

lemma nearest_tenth:
  assumes "2 ^ 53 * \<bar>1000 * t - n\<bar> \<le> 500 * 2 ^ 53 + n" "n < (2 :: int) ^ 53"
  shows "\<bar>1000 * t - n\<bar> \<le> 500"
proof -
  have "(2 :: int) ^ 53 * \<bar>1000 * t - n\<bar> < 2 ^ 53 * 501" using assms by simp
  then have "\<bar>1000 * t - n\<bar> < 501" by (simp only: mult_less_cancel_left_pos zero_less_numeral zero_less_power)
  then show ?thesis by simp
qed

text \<open>
  Claim C3. For an integer count \<open>n\<close> with \<open>0 \<le> n < 10000\<close>, \<open>format_number\<close> returns the
  decimal string of \<open>n\<close>: digits only, of value \<open>n\<close>, without a leading zero. For an integer
  \<open>n\<close> with \<open>10000 \<le> n < 10000 * 2^1023\<close> it returns a number with one decimal place,
  \<open>t div 10\<close>, a point and the digit \<open>t mod 10\<close>, followed by the unit; \<open>t / 10\<close> is within
  \<open>1/20 + n / (10000 * 2^53)\<close> of \<open>n / 10000\<close>, the quotient being rounded to a float before
  it is rounded to a tenth, and below \<open>2^53\<close> it is a tenth nearest to \<open>n / 10000\<close>.
\<close>

theorem format_number_spec:
  "(0 \<le> n \<and> n < 10000 \<longrightarrow>
      format_number so (JInt n) = Inr (str_int n)
      \<and> list_all is_digit (str_int n)
      \<and> int (dec_value (str_int n)) = n
      \<and> (10 \<le> n \<longrightarrow> hd (str_int n) \<noteq> 48))
   \<and> (10000 \<le> n \<and> n < 10000 * 2 ^ 1023 \<longrightarrow>
      (\<exists>t. format_number so (JInt n)
              = Inr (str_nat (t div 10) @ [46] @ str_nat (t mod 10) @ unit_wan)
           \<and> 2 ^ 53 * \<bar>1000 * int t - n\<bar> \<le> 500 * 2 ^ 53 + n
           \<and> (n < 2 ^ 53 \<longrightarrow> \<bar>1000 * int t - n\<bar> \<le> 500)))"
proof (intro conjI impI)
  assume a: "0 \<le> n \<and> n < 10000"
  then have s: "str_int n = str_nat (nat n)" by (simp add: str_int_def)
  from a show "format_number so (JInt n) = Inr (str_int n)" by (simp add: format_number_small)
  show "list_all is_digit (str_int n)" unfolding s by (rule str_nat_digits)
  from a show "int (dec_value (str_int n)) = n" unfolding s by (simp add: str_nat_value)
  assume "10 \<le> n"
  then have "10 \<le> nat n" by simp
  then show "hd (str_int n) \<noteq> 48" unfolding s by (rule str_nat_no_leading_zero)
next
  assume a: "10000 \<le> n \<and> n < 10000 * 2 ^ 1023"
  then obtain t where
    r: "format_number so (JInt n)
          = Inr (str_nat (t div 10) @ [46] @ str_nat (t mod 10) @ unit_wan)"
    and b: "2 ^ 53 * \<bar>1000 * int t - n\<bar> \<le> 500 * 2 ^ 53 + n"
    using format_number_large[of n so] by blast
  have "n < 2 ^ 53 \<longrightarrow> \<bar>1000 * int t - n\<bar> \<le> 500" using nearest_tenth[OF b] by blast
  with r b show "\<exists>t. format_number so (JInt n)
              = Inr (str_nat (t div 10) @ [46] @ str_nat (t mod 10) @ unit_wan)
           \<and> 2 ^ 53 * \<bar>1000 * int t - n\<bar> \<le> 500 * 2 ^ 53 + n
           \<and> (n < 2 ^ 53 \<longrightarrow> \<bar>1000 * int t - n\<bar> \<le> 500)" by blast
qed

theorem format_number_spec_witness:
  "format_number (\<lambda>v. []) (JInt 12345) = Inr (lit ''1.2'' @ unit_wan)
   \<and> format_number (\<lambda>v. []) (JInt 9999) = Inr (lit ''9999'')"
proof
  from format_number_spec [where n = 12345 and so = "\<lambda>v. []"] obtain t where
    r: "format_number (\<lambda>v. []) (JInt 12345)
          = Inr (str_nat (t div 10) @ [46] @ str_nat (t mod 10) @ unit_wan)"
    and b: "\<bar>1000 * int t - 12345\<bar> \<le> 500" by auto
  from b have "t = 12" by arith
  then show "format_number (\<lambda>v. []) (JInt 12345) = Inr (lit ''1.2'' @ unit_wan)"
    unfolding r by (simp add: str_nat.simps lit_def)
  from format_number_spec [where n = 9999 and so = "\<lambda>v. []"]
  have "format_number (\<lambda>v. []) (JInt 9999) = Inr (str_int 9999)" by simp
  then show "format_number (\<lambda>v. []) (JInt 9999) = Inr (lit ''9999'')"
    by (simp add: str_int_def str_nat.simps lit_def)
qed

text \<open>A count of \<open>10000 * 2^1024\<close> has no float quotient: the division raises.\<close>

theorem format_number_overflow:
  "format_number (\<lambda>v. []) (JInt (10000 * 2 ^ 1024))
     = Inl (OverflowError (lit ''integer division result too large for a float''))"
proof -
  have "int_truediv (10000 * 2 ^ 1024) 10000
          = Inl (OverflowError (lit ''integer division result too large for a float''))"
    by (rule int_truediv_overflow) simp
  moreover have "(10000 :: int) \<le> 10000 * 2 ^ 1024" by simp
  ultimately show ?thesis unfolding format_number_def by (simp del: power_numeral)
qed

lemma round_to_quantum_nonneg: "0 \<le> a \<Longrightarrow> 0 \<le> round_to_quantum q a"
  using round_to_quantum_ge[of 0 q a] by simp

lemma round_double_nonpos:
  assumes "x \<le> 0" "round_double x = Finite v"
  shows "v \<le> 0"
proof (cases "x = 0")
  case True
  with assms(2) show ?thesis by (simp add: round_double_def)
next
  case False
  with assms(1) have n: "x < 0" by simp
  have "0 \<le> round_to_quantum (max (ilog2 \<bar>x\<bar>) (- 1022) - 52) \<bar>x\<bar>"
    by (rule round_to_quantum_nonneg) simp
  with assms(2) n show ?thesis
    by (simp add: round_double_def Let_def split: if_splits)
qed

lemma round_double_rel:
  assumes "pow2 (- 1022) \<le> x" "round_double x = Finite v"
  shows "\<bar>v - x\<bar> \<le> x / 2 ^ 53" "v = round_to_quantum (ilog2 x - 52) x"
proof -
  have x: "0 < x" using assms(1) pow2_pos[of "- 1022"] by linarith
  have lo: "- 1022 \<le> ilog2 x" using assms(1) by (rule ilog2_mono_ge)
  from assms(2) round_double_normal[OF x lo]
  show v: "v = round_to_quantum (ilog2 x - 52) x" by (simp split: if_splits)
  show "\<bar>v - x\<bar> \<le> x / 2 ^ 53" unfolding v by (rule nearest_bounds(3)[OF x])
qed

text \<open>An integer times a quantum not above 1 is a multiple of the quantum.\<close>

lemma int_multiple:
  assumes "q \<le> 0"
  shows "(of_int k :: rat) = of_int (k * 2 ^ nat (- q)) * pow2 q"
proof -
  have "pow2 q * 2 ^ nat (- q) = 1"
  proof (cases "q = 0")
    case True
    then show ?thesis by simp
  next
    case False
    with assms show ?thesis by (simp add: pow2_def)
  qed
  then have "of_int k * (2 ^ nat (- q) * pow2 q) = (of_int k :: rat)" by (simp add: mult.commute)
  then show ?thesis by (simp add: mult.assoc)
qed

text \<open>Rounding is monotone at the integers below \<open>2^53\<close>, which are floats.\<close>

lemma round_double_int_ge:
  assumes lo: "pow2 (- 1022) \<le> y" and k: "of_int k \<le> y" "k < 2 ^ 53"
    and r: "round_double y = Finite x"
  shows "of_int k \<le> x"
proof -
  have y: "0 < y" using lo pow2_pos[of "- 1022"] by linarith
  note x = round_double_rel(2)[OF lo r]
  show ?thesis
  proof (cases "ilog2 y - 52 \<le> 0")
    case True
    note m = int_multiple[OF True, of k, symmetric]
    have "of_int (k * 2 ^ nat (- (ilog2 y - 52))) * pow2 (ilog2 y - 52) \<le> y"
      using k(1) by (simp only: m)
    from round_to_quantum_ge[OF this] show ?thesis unfolding x by (simp only: m)
  next
    case False
    then have "pow2 53 \<le> pow2 (ilog2 y)" by (intro pow2_mono) simp
    with nearest_bounds(1)[OF y] x have "2 ^ 53 \<le> x" by (simp add: pow2_53)
    moreover have "(of_int k :: rat) < of_int (2 ^ 53)" using k(2) by (simp only: of_int_less_iff)
    ultimately show ?thesis by simp
  qed
qed

lemma round_double_int:
  assumes "0 < w" "w < 2 ^ 53"
  shows "round_double (of_int w) = Finite (of_int w)"
proof -
  let ?y = "of_int w :: rat"
  have one: "1 \<le> ?y" using assms(1) by simp
  then have y: "0 < ?y" by linarith
  have "pow2 (- 1022) \<le> pow2 0" by (intro pow2_mono) simp
  with one have lo: "pow2 (- 1022) \<le> ?y" by simp
  have "?y < of_int (2 ^ 53)" using assms(2) by (simp only: of_int_less_iff)
  then have lt: "?y < pow2 53" by (simp add: pow2_53)
  have "pow2 53 \<le> pow2 1023" by (intro pow2_mono) simp
  with lt have hi: "?y < pow2 1023" by linarith
  have q: "ilog2 ?y - 52 \<le> 0" using ilog2_less[OF y lt] by simp
  note m = int_multiple[OF q, of w, symmetric]
  have "?y / pow2 (ilog2 ?y - 52) = of_int (w * 2 ^ nat (- (ilog2 ?y - 52)))"
    using m by (simp add: nonzero_divide_eq_eq)
  then have "round_to_quantum (ilog2 ?y - 52) ?y = ?y"
    unfolding round_to_quantum_def by (simp only: round_half_even_int m)
  with round_double_finite[OF lo hi] show ?thesis by simp
qed

section \<open>The products of the resize loop\<close>

lemma round_double_cases_pos:
  "0 < y \<Longrightarrow> round_double y = PosInf \<or> (\<exists>v. round_double y = Finite v)"
  by (simp add: round_double_def Let_def)

lemma round_double_cases_nonpos:
  "y \<le> 0 \<Longrightarrow> round_double y = NegInf \<or> (\<exists>v. round_double y = Finite v)"
  by (simp add: round_double_def Let_def)

lemma lo_of_quarter: "1 / 4 \<le> y \<Longrightarrow> pow2 (- 1022) \<le> y"
proof -
  assume a: "1 / 4 \<le> y"
  have "pow2 (- 1022) \<le> pow2 (- 2)" by (intro pow2_mono) simp
  also have "pow2 (- 2) = 1 / 4" by (simp add: pow2_def)
  finally show ?thesis using a by linarith
qed

lemma hi_of_2_50: "y < 2 ^ 50 \<Longrightarrow> y < pow2 1023"
proof -
  assume a: "y < 2 ^ 50"
  have "pow2 50 \<le> pow2 1023" by (intro pow2_mono) simp
  moreover have "pow2 50 = 2 ^ 50" by (simp add: pow2_def)
  ultimately show ?thesis using a by linarith
qed

lemma rel_upper:
  fixes x y :: rat
  assumes "\<bar>x - y\<bar> \<le> y / 2 ^ 53"
  shows "x \<le> y + y / 2 ^ 53"
  using assms by linarith

lemma factor_A:
  fixes W v x :: rat
  assumes "\<bar>v - W\<bar> \<le> W / 2 ^ 53" "\<bar>x - v * RESIZE_FACTOR\<bar> \<le> v * RESIZE_FACTOR / 2 ^ 53" "1 \<le> W"
  shows "x < W"
proof -
  from rel_upper[OF assms(1)] have a: "v \<le> W + W / 9007199254740992" by simp
  from rel_upper[OF assms(2)] have b: "x \<le> v * RESIZE_FACTOR + v * RESIZE_FACTOR / 9007199254740992" by simp
  from a b assms(3) show ?thesis unfolding RESIZE_FACTOR_def by linarith
qed

lemma factor_B:
  fixes W x :: rat
  assumes "\<bar>x - W * RESIZE_FACTOR\<bar> \<le> W * RESIZE_FACTOR / 2 ^ 53" "W \<le> 124" "0 \<le> W"
  shows "x < 100"
proof -
  from rel_upper[OF assms(1)] have b: "x \<le> W * RESIZE_FACTOR + W * RESIZE_FACTOR / 9007199254740992" by simp
  from b assms(2,3) show ?thesis unfolding RESIZE_FACTOR_def by linarith
qed

lemma factor_C:
  fixes W K x :: rat
  assumes "\<bar>x - W * RESIZE_FACTOR\<bar> \<le> W * RESIZE_FACTOR / 2 ^ 53" "4 * W + 1 \<le> 5 * K + 5"
    "W < 2 ^ 50" "0 \<le> W"
  shows "x < K + 1"
proof -
  from rel_upper[OF assms(1)] have b: "x \<le> W * RESIZE_FACTOR + W * RESIZE_FACTOR / 9007199254740992" by simp
  from assms(3) have c: "W < 1125899906842624" by simp
  from b c assms(2,4) show ?thesis unfolding RESIZE_FACTOR_def by linarith
qed

text \<open>\<open>n * 0.8\<close> that comes out at 100 or more is below a positive \<open>n\<close>.\<close>

lemma mul_factor_decreases:
  assumes m: "int_mul_float w RESIZE_FACTOR = Inr (Finite x)" and x: "100 \<le> x"
  shows "0 < w" "x < of_int w"
proof -
  from m obtain v where v: "round_double (of_int w) = Finite v"
    and r: "round_double (v * RESIZE_FACTOR) = Finite x"
    by (auto simp: int_mul_float_def split: pyfloat.splits)
  show w: "0 < w"
  proof (rule ccontr)
    assume "\<not> 0 < w"
    then have "(of_int w :: rat) \<le> 0" by simp
    from round_double_nonpos[OF this v] have "v * RESIZE_FACTOR \<le> 0"
      by (simp add: RESIZE_FACTOR_def mult_le_0_iff)
    from round_double_nonpos[OF this r] x show False by simp
  qed
  then have one: "(1 :: rat) \<le> of_int w" by simp
  then have lo: "pow2 (- 1022) \<le> of_int w" by (intro lo_of_quarter) simp
  from round_double_rel(1)[OF lo v] have e1: "\<bar>v - of_int w\<bar> \<le> of_int w / 2 ^ 53" .
  have "of_int w / 2 ^ 53 \<le> (of_int w :: rat) / 2" using one by simp
  with e1 one have "1 / 2 \<le> v" by linarith
  then have "1 / 4 \<le> v * RESIZE_FACTOR" by (simp add: RESIZE_FACTOR_def)
  then have lo2: "pow2 (- 1022) \<le> v * RESIZE_FACTOR" by (rule lo_of_quarter)
  from round_double_rel(1)[OF lo2 r]
  have e2: "\<bar>x - v * RESIZE_FACTOR\<bar> \<le> v * RESIZE_FACTOR / 2 ^ 53" .
  from e1 e2 one show "x < of_int w" by (rule factor_A)
qed

text \<open>\<open>n * 0.8 >= 100\<close> holds exactly from \<open>n = 125\<close> on.\<close>

lemma mul_factor_guard:
  assumes m: "int_mul_float w RESIZE_FACTOR = Inr x"
  shows "float_ge_int x MIN_DIMENSION = (125 \<le> w)"
proof -
  from m obtain v where v: "round_double (of_int w) = Finite v"
    and r: "round_double (v * RESIZE_FACTOR) = x"
    by (auto simp: int_mul_float_def split: pyfloat.splits)
  consider "w \<le> 0" | "0 < w" "w < 125" | "125 \<le> w" by linarith
  then show ?thesis
  proof cases
    case 1
    then have "(of_int w :: rat) \<le> 0" by simp
    from round_double_nonpos[OF this v] have y: "v * RESIZE_FACTOR \<le> 0"
      by (simp add: RESIZE_FACTOR_def mult_le_0_iff)
    from round_double_cases_nonpos[OF y] r round_double_nonpos[OF y] 1
    show ?thesis by (auto simp: float_ge_int_def MIN_DIMENSION_def)
  next
    case 2
    then have "w < 2 ^ 53" by simp
    from round_double_int[OF 2(1) this] v have vw: "v = of_int w" by simp
    have one: "(1 :: rat) \<le> of_int w" using 2(1) by simp
    have up: "(of_int w :: rat) \<le> 124"
    proof -
      from 2(2) have "w \<le> 124" by simp
      then have "(of_int w :: rat) \<le> of_int 124" by (simp only: of_int_le_iff)
      then show ?thesis by simp
    qed
    have "1 / 4 \<le> v * RESIZE_FACTOR" using one by (simp add: vw RESIZE_FACTOR_def)
    then have lo: "pow2 (- 1022) \<le> v * RESIZE_FACTOR" by (rule lo_of_quarter)
    have "v * RESIZE_FACTOR < 2 ^ 50" using up by (simp add: vw RESIZE_FACTOR_def)
    then have hi: "v * RESIZE_FACTOR < pow2 1023" by (rule hi_of_2_50)
    from round_double_finite[OF lo hi] r obtain xv where xv: "x = Finite xv" by auto
    from round_double_rel(1)[OF lo] r xv
    have "\<bar>xv - of_int w * RESIZE_FACTOR\<bar> \<le> of_int w * RESIZE_FACTOR / 2 ^ 53"
      unfolding vw by simp
    from this up have "xv < 100" by (rule factor_B) (use one in simp)
    with 2 show ?thesis by (simp add: xv float_ge_int_def MIN_DIMENSION_def)
  next
    case 3
    then have "(of_int 125 :: rat) \<le> of_int w" by (simp only: of_int_le_iff)
    then have k: "(of_int 125 :: rat) \<le> of_int w" and one: "(1 :: rat) / 4 \<le> of_int w" by simp_all
    from round_double_int_ge[OF lo_of_quarter[OF one] k _ v] have v125: "125 \<le> v" by simp
    then have y: "of_int 100 \<le> v * RESIZE_FACTOR" by (simp add: RESIZE_FACTOR_def)
    then have "1 / 4 \<le> v * RESIZE_FACTOR" by simp
    then have lo: "pow2 (- 1022) \<le> v * RESIZE_FACTOR" by (rule lo_of_quarter)
    have pos: "0 < v * RESIZE_FACTOR" using y by simp
    from round_double_cases_pos[OF pos] show ?thesis
    proof
      assume "round_double (v * RESIZE_FACTOR) = PosInf"
      with r have "x = PosInf" by simp
      with 3 show ?thesis by (simp add: float_ge_int_def)
    next
      assume "\<exists>xv. round_double (v * RESIZE_FACTOR) = Finite xv"
      then obtain xv where f: "round_double (v * RESIZE_FACTOR) = Finite xv" by blast
      from round_double_int_ge[OF lo y _ f] have "100 \<le> xv" by simp
      moreover from r f have "x = Finite xv" by simp
      ultimately show ?thesis using 3 by (simp add: float_ge_int_def MIN_DIMENSION_def)
    qed
  qed
qed

text \<open>\<open>int(n * 0.8)\<close> for a positive \<open>n\<close> below \<open>2^50\<close>.\<close>

lemma mul_factor_value:
  assumes "0 < w" "w < 2 ^ 50"
  shows "\<exists>x. int_mul_float w RESIZE_FACTOR = Inr (Finite x)
           \<and> float_to_int (Finite x) = Inr (4 * w div 5)"
proof -
  let ?y = "of_int w * RESIZE_FACTOR" and ?k = "4 * w div 5"
  have "w < 2 ^ 53" using assms(2) by simp
  from round_double_int[OF assms(1) this] have v: "round_double (of_int w) = Finite (of_int w)" .
  have one: "(1 :: rat) \<le> of_int w" using assms(1) by simp
  have "(of_int w :: rat) < of_int (2 ^ 50)" using assms(2) by (simp only: of_int_less_iff)
  then have up: "(of_int w :: rat) < 2 ^ 50" by simp
  have "1 / 4 \<le> ?y" using one by (simp add: RESIZE_FACTOR_def)
  then have lo: "pow2 (- 1022) \<le> ?y" by (rule lo_of_quarter)
  have "?y < 2 ^ 50" using up one by (simp add: RESIZE_FACTOR_def)
  then have hi: "?y < pow2 1023" by (rule hi_of_2_50)
  from round_double_finite[OF lo hi] obtain x where x: "round_double ?y = Finite x" by blast
  from round_double_rel(1)[OF lo x] have e: "\<bar>x - ?y\<bar> \<le> ?y / 2 ^ 53" .
  have k1: "5 * ?k \<le> 4 * w" and k2: "4 * w < 5 * ?k + 5" and k3: "?k < 2 ^ 53" and k0: "0 \<le> ?k"
    using assms by simp_all
  from k1 have "(of_int (5 * ?k) :: rat) \<le> of_int (4 * w)" by (simp only: of_int_le_iff)
  then have r1: "5 * (of_int ?k :: rat) \<le> 4 * of_int w" by simp
  from k2 have "4 * w + 1 \<le> 5 * ?k + 5" by simp
  then have "(of_int (4 * w + 1) :: rat) \<le> of_int (5 * ?k + 5)" by (simp only: of_int_le_iff)
  then have r2: "4 * (of_int w :: rat) + 1 \<le> 5 * of_int ?k + 5" by simp
  have "of_int ?k \<le> ?y" using r1 one by (simp add: RESIZE_FACTOR_def)
  from round_double_int_ge[OF lo this k3 x] have ge: "of_int ?k \<le> x" .
  have lt: "x < of_int ?k + 1" using e r2 up by (rule factor_C) (use one in simp)
  from ge lt have "\<lfloor>x\<rfloor> = ?k" by (simp add: floor_unique)
  moreover have "0 \<le> x" using ge k0 by (meson of_int_0_le_iff order_trans)
  ultimately have "float_to_int (Finite x) = Inr ?k" by (simp add: float_to_int_def)
  moreover have "int_mul_float w RESIZE_FACTOR = Inr (Finite x)"
    by (simp add: int_mul_float_def v x)
  ultimately show ?thesis by blast
qed

section \<open>The resize loop\<close>

lemma loop_cond_value:
  assumes "loop_cond (d, w, h, t) = Inr c"
  shows "c = (MAX_IMAGE_SIZE_BYTES < int (length d) \<and> 125 \<le> w \<and> 125 \<le> h)"
proof (cases "MAX_IMAGE_SIZE_BYTES < int (length d)")
  case False
  with assms show ?thesis by (simp add: loop_cond_def)
next
  case big: True
  show ?thesis
  proof (cases "int_mul_float w RESIZE_FACTOR")
    case (Inl e)
    with assms big show ?thesis by (simp add: loop_cond_def bind_exn_def)
  next
    case x: (Inr x)
    note gx = mul_factor_guard[OF x]
    show ?thesis
    proof (cases "float_ge_int x MIN_DIMENSION")
      case False
      with assms big x gx show ?thesis by (simp add: loop_cond_def bind_exn_def)
    next
      case wide: True
      show ?thesis
      proof (cases "int_mul_float h RESIZE_FACTOR")
        case (Inl e)
        with assms big x wide show ?thesis by (simp add: loop_cond_def bind_exn_def)
      next
        case y: (Inr y)
        note gy = mul_factor_guard[OF y]
        from assms big x wide y gx gy show ?thesis by (simp add: loop_cond_def bind_exn_def)
      qed
    qed
  qed
qed

lemma loop_cond_defined:
  assumes "0 < w" "w < 2 ^ 50" "0 < h" "h < 2 ^ 50"
  shows "loop_cond (d, w, h, t)
           = Inr (MAX_IMAGE_SIZE_BYTES < int (length d) \<and> 125 \<le> w \<and> 125 \<le> h)"
proof -
  from mul_factor_value[OF assms(1,2)] obtain x where x: "int_mul_float w RESIZE_FACTOR = Inr (Finite x)"
    by blast
  from mul_factor_value[OF assms(3,4)] obtain y where y: "int_mul_float h RESIZE_FACTOR = Inr (Finite y)"
    by blast
  have "\<exists>c. loop_cond (d, w, h, t) = Inr c" by (auto simp: loop_cond_def bind_exn_def x y)
  then obtain c where c: "loop_cond (d, w, h, t) = Inr c" by blast
  from loop_cond_value[OF c] c show ?thesis by simp
qed

lemma float_to_int_floor:
  assumes "float_to_int x = Inr n"
  shows "\<exists>v. x = Finite v \<and> (0 \<le> v \<longrightarrow> n = \<lfloor>v\<rfloor>)"
  using assms by (cases x) (auto simp: float_to_int_def)

lemma loop_body_parts:
  assumes "loop_body resize_save image_url (d, w, h, t) = Inr s'"
  shows "\<exists>x y w' h' t'. int_mul_float w RESIZE_FACTOR = Inr x \<and> float_to_int x = Inr w'
           \<and> int_mul_float h RESIZE_FACTOR = Inr y \<and> float_to_int y = Inr h'
           \<and> s' = (resize_save w' h', w', h', t')"
  using assms
  by (auto simp: loop_body_def bind_exn_def split: sum.splits)

lemma loop_body_decreases:
  assumes c: "loop_cond (d, w, h, t) = Inr True"
    and b: "loop_body resize_save image_url (d, w, h, t) = Inr (d', w', h', t')"
  shows "0 < w" "w' < w"
proof -
  from loop_cond_value[OF c] have w: "125 \<le> w" by simp
  then show "0 < w" by simp
  from loop_body_parts[OF b] obtain x where x: "int_mul_float w RESIZE_FACTOR = Inr x"
    and f: "float_to_int x = Inr w'" by auto
  from mul_factor_guard[OF x] w have g: "float_ge_int x MIN_DIMENSION" by simp
  from float_to_int_floor[OF f] obtain v where v: "x = Finite v" and n: "0 \<le> v \<longrightarrow> w' = \<lfloor>v\<rfloor>"
    by blast
  from g have v100: "100 \<le> v" by (simp add: v float_ge_int_def MIN_DIMENSION_def)
  with n have w': "w' = \<lfloor>v\<rfloor>" by simp
  from mul_factor_decreases[OF x[unfolded v] v100] have "v < of_int w" by simp
  then have "\<lfloor>v\<rfloor> < w" by (simp add: floor_less_iff)
  then show "w' < w" by (simp add: w')
qed

lemma loop_body_value:
  assumes "0 < w" "w < 2 ^ 50" "0 < h" "h < 2 ^ 50"
    and b: "loop_body resize_save image_url (d, w, h, t) = Inr s'"
  shows "\<exists>t'. s' = (resize_save (4 * w div 5) (4 * h div 5), 4 * w div 5, 4 * h div 5, t')"
proof -
  from mul_factor_value[OF assms(1,2)] obtain x where
    x: "int_mul_float w RESIZE_FACTOR = Inr (Finite x)" "float_to_int (Finite x) = Inr (4 * w div 5)"
    by blast
  from mul_factor_value[OF assms(3,4)] obtain y where
    y: "int_mul_float h RESIZE_FACTOR = Inr (Finite y)" "float_to_int (Finite y) = Inr (4 * h div 5)"
    by blast
  from loop_body_parts[OF b] x y show ?thesis by auto
qed

lemma resize_loop_stop:
  "loop_cond s = Inr False \<Longrightarrow> resize_loop resize_save image_url s = Some (Inr s)"
  by (subst resize_loop.simps) simp

lemma resize_loop_terminates: "\<exists>r. resize_loop resize_save image_url (d, w, h, t) = Some r"
proof (induction "nat w" arbitrary: d w h t rule: less_induct)
  case less
  show ?case
  proof (cases "loop_cond (d, w, h, t)")
    case (Inl e)
    then show ?thesis by (subst resize_loop.simps) simp
  next
    case c: (Inr c)
    show ?thesis
    proof (cases c)
      case False
      with c show ?thesis by (subst resize_loop.simps) simp
    next
      case True
      show ?thesis
      proof (cases "loop_body resize_save image_url (d, w, h, t)")
        case (Inl e)
        with c True show ?thesis by (subst resize_loop.simps) simp
      next
        case (Inr s')
        obtain d' w' h' t' where s': "s' = (d', w', h', t')" by (cases s') auto
        from c True have c': "loop_cond (d, w, h, t) = Inr True" by simp
        from loop_body_decreases[OF c' Inr[unfolded s']] have "nat w' < nat w" by simp
        from less[OF this] obtain r where "resize_loop resize_save image_url (d', w', h', t') = Some r"
          by blast
        with c True Inr s' show ?thesis by (subst resize_loop.simps) simp
      qed
    qed
  qed
qed

lemma resize_loop_exit:
  "resize_loop resize_save image_url (d, w, h, t) = Some (Inr s') \<Longrightarrow> loop_cond s' = Inr False"
proof (induction "nat w" arbitrary: d w h t rule: less_induct)
  case less
  note r = less.prems
  show ?case
  proof (cases "loop_cond (d, w, h, t)")
    case (Inl e)
    with r show ?thesis by (subst (asm) resize_loop.simps) simp
  next
    case c: (Inr c)
    show ?thesis
    proof (cases c)
      case False
      with c r show ?thesis by (subst (asm) resize_loop.simps) auto
    next
      case True
      show ?thesis
      proof (cases "loop_body resize_save image_url (d, w, h, t)")
        case (Inl e)
        with c True r show ?thesis by (subst (asm) resize_loop.simps) simp
      next
        case (Inr s1)
        obtain d1 w1 h1 t1 where s1: "s1 = (d1, w1, h1, t1)" by (cases s1) auto
        from c True have c': "loop_cond (d, w, h, t) = Inr True" by simp
        from loop_body_decreases[OF c' Inr[unfolded s1]] have m: "nat w1 < nat w" by simp
        from r c True Inr s1 have "resize_loop resize_save image_url (d1, w1, h1, t1) = Some (Inr s')"
          by (subst (asm) resize_loop.simps) simp
        from less.hyps[OF m this] show ?thesis .
      qed
    qed
  qed
qed

lemma size_mb_defined:
  assumes "int (length d) < 2 ^ 1000"
  shows "\<exists>m. size_mb d = Inr m"
proof (cases "length d = 0")
  case True
  then show ?thesis by (simp add: size_mb_def int_truediv_def round_double_def bind_exn_def)
next
  case False
  let ?y = "of_int (int (length d)) / of_int (1024 * 1024) :: rat"
  from False have "1 \<le> int (length d)" by (cases d) simp_all
  then have "(of_int 1 :: rat) \<le> of_int (int (length d))" by (simp only: of_int_le_iff)
  then have "(1 :: rat) \<le> of_int (int (length d))" by simp
  then have "1 / 1048576 \<le> ?y" by (simp add: divide_right_mono)
  moreover have "pow2 (- 1022) \<le> pow2 (- 20)" by (intro pow2_mono) simp
  moreover have "pow2 (- 20) = 1 / 1048576" by (simp add: pow2_def)
  ultimately have lo: "pow2 (- 1022) \<le> ?y" by linarith
  have "(of_int (int (length d)) :: rat) < of_int (2 ^ 1000)" using assms by (simp only: of_int_less_iff)
  then have "?y < 2 ^ 1000" by simp
  moreover have "pow2 1000 \<le> pow2 1023" by (intro pow2_mono) simp
  moreover have "pow2 1000 = 2 ^ 1000" by (simp add: pow2_def)
  ultimately have hi: "?y < pow2 1023" by linarith
  from round_double_finite[OF lo hi] show ?thesis
    by (simp add: size_mb_def int_truediv_def bind_exn_def)
qed

lemma resize_loop_step:
  assumes big: "MAX_IMAGE_SIZE_BYTES < int (length d)"
    and w: "125 \<le> w" "w < 2 ^ 50" and h: "125 \<le> h" "h < 2 ^ 50"
    and l: "int (length d) < 2 ^ 1000"
      "int (length (resize_save (4 * w div 5) (4 * h div 5))) < 2 ^ 1000"
  shows "\<exists>t'. resize_loop resize_save image_url (d, w, h, t)
           = resize_loop resize_save image_url
               (resize_save (4 * w div 5) (4 * h div 5), 4 * w div 5, 4 * h div 5, t')"
proof -
  have w0: "0 < w" and h0: "0 < h" using w(1) h(1) by simp_all
  from loop_cond_defined[OF w0 w(2) h0 h(2), of d t] big w(1) h(1)
  have c: "loop_cond (d, w, h, t) = Inr True" by simp
  from mul_factor_value[OF w0 w(2)] obtain x where
    x: "int_mul_float w RESIZE_FACTOR = Inr (Finite x)" "float_to_int (Finite x) = Inr (4 * w div 5)"
    by blast
  from mul_factor_value[OF h0 h(2)] obtain y where
    y: "int_mul_float h RESIZE_FACTOR = Inr (Finite y)" "float_to_int (Finite y) = Inr (4 * h div 5)"
    by blast
  from size_mb_defined[OF l(1)] obtain m where m: "size_mb d = Inr m" by blast
  from size_mb_defined[OF l(2)] obtain m' where
    m': "size_mb (resize_save (4 * w div 5) (4 * h div 5)) = Inr m'" by blast
  have "\<exists>t'. loop_body resize_save image_url (d, w, h, t)
          = Inr (resize_save (4 * w div 5) (4 * h div 5), 4 * w div 5, 4 * h div 5, t')"
    by (simp add: loop_body_def bind_exn_def x y m m')
  then obtain t' where b: "loop_body resize_save image_url (d, w, h, t)
          = Inr (resize_save (4 * w div 5) (4 * h div 5), 4 * w div 5, 4 * h div 5, t')" by blast
  have "resize_loop resize_save image_url (d, w, h, t)
           = resize_loop resize_save image_url
               (resize_save (4 * w div 5) (4 * h div 5), 4 * w div 5, 4 * h div 5, t')"
    by (subst resize_loop.simps) (simp add: c b)
  then show ?thesis by blast
qed

lemma after_loop_warning:
  assumes "MAX_IMAGE_SIZE_BYTES < int (length d)" "int (length d) < 2 ^ 1000"
  shows "\<exists>m. after_loop image_url (d, w, h, t) = Inr (d, t @ [Print m])"
proof -
  from size_mb_defined[OF assms(2)] obtain m where "size_mb d = Inr m" by blast
  with assms(1) show ?thesis by (simp add: after_loop_def bind_exn_def)
qed

lemma shrink_under_budget:
  assumes "int (length d) \<le> MAX_IMAGE_SIZE_BYTES"
  shows "shrink_to_budget resize_save image_url d w h = Some (Inr (d, []))"
proof -
  from assms have c: "loop_cond (d, w, h, []) = Inr False" by (simp add: loop_cond_def)
  from resize_loop_stop[OF c] assms show ?thesis
    by (simp add: shrink_to_budget_def after_loop_def)
qed




section \<open>The segments of a successful call\<close>

lemma bind_exn_Inr_iff: "(bind_exn m f = Inr y) = (\<exists>x. m = Inr x \<and> f x = Inr y)"
  by (cases m) simp_all

lemma fetch_video_info_Inr:
  assumes "fst (fetch_video_info env b) = Inr vi"
  shows "\<exists>v1 v2 t1 t2 t3. fetch_view env (init_video_info b) = (Inr v1, t1)
           \<and> fetch_relation env v1 = (Inr v2, t2) \<and> fetch_online env v2 = (Inr vi, t3)"
proof -
  obtain r1 t1 where 1: "fetch_view env (init_video_info b) = (r1, t1)"
    by (cases "fetch_view env (init_video_info b)") auto
  show ?thesis
  proof (cases r1)
    case (Inl e)
    with assms 1 show ?thesis by (simp add: fetch_video_info_def)
  next
    case v1: (Inr v1)
    obtain r2 t2 where 2: "fetch_relation env v1 = (r2, t2)"
      by (cases "fetch_relation env v1") auto
    show ?thesis
    proof (cases r2)
      case (Inl e)
      with assms 1 v1 2 show ?thesis by (simp add: fetch_video_info_def)
    next
      case v2: (Inr v2)
      obtain r3 t3 where 3: "fetch_online env v2 = (r3, t3)"
        by (cases "fetch_online env v2") auto
      from assms 1 v1 2 v2 3 have "r3 = Inr vi" by (simp add: fetch_video_info_def)
      with 1 v1 2 v2 3 show ?thesis by simp
    qed
  qed
qed

lemma bind_io_InrE:
  assumes "bind_io m f = (Inr y, t)"
  obtains x t1 t2 where "m = (Inr x, t1)" "f x = (Inr y, t2)"
proof -
  obtain r t1 where m: "m = (r, t1)" by (cases m) auto
  show ?thesis
  proof (cases r)
    case (Inl e)
    with assms m show ?thesis by simp
  next
    case (Inr x)
    obtain r2 t2 where f: "f x = (r2, t2)" by (cases "f x") auto
    with assms m Inr have "r2 = Inr y" by simp
    with m Inr f that show ?thesis by blast
  qed
qed

lemma fetch_online_keeps:
  assumes "fetch_online env v = (Inr v', t)"
  shows "\<exists>a b. v' = v\<lparr>watchingTotal := a, watchingWeb := b\<rparr>"
proof -
  have same: "v = v\<lparr>watchingTotal := watchingTotal v, watchingWeb := watchingWeb v\<rparr>" by simp
  show ?thesis
  proof (cases "py_truthy (cid v)")
    case False
    with assms have "v' = v" by simp
    with same show ?thesis by metis
  next
    case True
    from assms True have "v' = v \<or> (\<exists>data. online_fields (str_other env) data v = Inr v')"
      by (auto simp: fetch_online_def Let_def elim!: bind_io_InrE split: if_splits)
    then show ?thesis
    proof
      assume "v' = v"
      with same show ?thesis by metis
    next
      assume "\<exists>data. online_fields (str_other env) data v = Inr v'"
      then show ?thesis by (auto simp: online_fields_def bind_exn_Inr_iff)
    qed
  qed
qed

lemma fetch_relation_keeps:
  assumes "fetch_relation env v = (Inr v', t)"
  shows "v' = v\<lparr>upFans := upFans v'\<rparr>"
proof (cases "py_truthy (upMid v)")
  case False
  with assms show ?thesis by simp
next
  case True
  with assms show ?thesis
    by (auto simp: fetch_relation_def Let_def bind_exn_Inr_iff elim!: bind_io_InrE
        split: if_splits)
qed

lemma fetch_relation_follower:
  assumes "fetch_relation env v = (Inr v', t)" "py_truthy (upMid v)"
    and "api_get env (relation_api_url (str_other env) (upMid v)) = Inr (JObj rk)"
    and "map_of rk (lit ''code'') = Some (JInt 0)" "map_of rk (lit ''data'') = Some (JObj fk)"
    and "map_of fk (lit ''follower'') = Some (JInt n)"
  shows "format_number (str_other env) (JInt n) = Inr (upFans v')"
  using assms
  by (auto simp: fetch_relation_def Let_def get_number_def bind_exn_Inr_iff
      elim!: bind_io_InrE)

lemma fetch_view_fields:
  assumes "fetch_view env v = (Inr v', t)"
    and "api_get env (view_api_url (bvid v)) = Inr (JObj vk)"
    and "map_of vk (lit ''code'') = Some (JInt 0)" "map_of vk (lit ''data'') = Some (JObj dk)"
    and "map_of dk (lit ''owner'') = Some (JObj ok)"
  shows "title v' = (case map_of dk (lit ''title'') of Some x \<Rightarrow> x | None \<Rightarrow> JStr (lit ''N/A''))"
    "pic v' = (case map_of dk (lit ''pic'') of Some x \<Rightarrow> x | None \<Rightarrow> JStr (lit ''N/A''))"
    "upName v' = (case map_of ok (lit ''name'') of Some x \<Rightarrow> x | None \<Rightarrow> JStr (lit ''N/A''))"
    "upMid v' = (case map_of ok (lit ''mid'') of Some x \<Rightarrow> x | None \<Rightarrow> JNull)"
proof -
  from assms have "view_fields (str_other env) (JObj vk) v = Inr v'"
    by (auto simp: fetch_view_def Let_def elim!: bind_io_InrE)
  with assms(4,5)
  show "title v' = (case map_of dk (lit ''title'') of Some x \<Rightarrow> x | None \<Rightarrow> JStr (lit ''N/A''))"
    "pic v' = (case map_of dk (lit ''pic'') of Some x \<Rightarrow> x | None \<Rightarrow> JStr (lit ''N/A''))"
    "upName v' = (case map_of ok (lit ''name'') of Some x \<Rightarrow> x | None \<Rightarrow> JStr (lit ''N/A''))"
    "upMid v' = (case map_of ok (lit ''mid'') of Some x \<Rightarrow> x | None \<Rightarrow> JNull)"
    by (auto simp: view_fields_def bind_exn_Inr_iff)
qed

lemma str_nat_zero_iff: "(str_nat k = [48]) = (k = 0)"
proof
  assume "str_nat k = [48]"
  then have "dec_value (str_nat k) = dec_value [48]" by simp
  moreover have "dec_value [48] = 0" by (simp add: dec_value_def)
  ultimately show "k = 0" by (simp only: str_nat_value)
next
  assume "k = 0"
  then show "str_nat k = [48]" by (simp add: str_nat.simps)
qed

lemma str_int_zero_iff: "(str_int n = lit ''0'') = (n = 0)"
  by (auto simp: str_int_def lit_def str_nat_zero_iff)

lemma str_int_not_NA: "str_int n \<noteq> lit ''N/A''"
proof (cases "n < 0")
  case True
  then show ?thesis by (simp add: str_int_def lit_def)
next
  case False
  have "list_all is_digit (str_nat (nat n))" by (rule str_nat_digits)
  moreover have "\<not> list_all is_digit (lit ''N/A'')" by (simp add: lit_def is_digit_def)
  ultimately show ?thesis using False by (auto simp: str_int_def)
qed

text \<open>The text of an integer count is neither \<open>N/A\<close> nor, unless the count is 0, \<open>0\<close>.\<close>

lemma format_number_known:
  assumes "format_number so (JInt n) = Inr s"
  shows "known_nonzero s = (n \<noteq> 0)"
proof (cases "10000 \<le> n")
  case False
  with assms have "s = str_int n" by (simp add: format_number_def)
  then show ?thesis by (simp add: known_nonzero_def str_int_zero_iff str_int_not_NA)
next
  case True
  with assms obtain x where "s = format_1f x @ unit_wan"
    by (auto simp: format_number_def split: sum.splits)
  then have "last s = 8225" by (simp add: unit_wan_def)
  moreover have "last (lit ''N/A'') = 65" "last (lit ''0'') = 48" by (simp_all add: lit_def)
  ultimately have "s \<noteq> lit ''N/A''" "s \<noteq> lit ''0''" by auto
  with True show ?thesis by (simp add: known_nonzero_def)
qed

lemma parse_bili_resolve_error:
  "fst (resolve_step env u) = Inl (ErrorString err) \<Longrightarrow> fst (parse_bili env u) = ErrorString err"
  by (rule parse_bili_raises)

lemma parse_bili_segments:
  assumes "fst (resolve_step env u) = Inr p" "extract_bvid_from_url p = Some b"
    "fst (fetch_video_info env b) = Inr vi"
  shows "fst (parse_bili env u) = Segments (format_segments (str_other env) vi)"
  unfolding parse_bili_fetched[OF assms(1,2)] using assms(3) by simp

lemma parse_bili_no_bvid:
  assumes "fst (resolve_step env u) = Inr p" "extract_bvid_from_url p = None"
  shows "fst (parse_bili env u) = ErrorString (no_bvid_message p u)"
  using assms by (cases "resolve_step env u") (simp add: parse_bili_def)

lemma successful_fetch:
  assumes f: "fst (fetch_video_info env b) = Inr vi"
    and view: "api_get env (view_api_url b) = Inr (JObj vk)"
      "map_of vk (lit ''code'') = Some (JInt 0)" "map_of vk (lit ''data'') = Some (JObj dk)"
      "map_of dk (lit ''title'') = Some ttl" "map_of dk (lit ''pic'') = Some cover"
      "map_of dk (lit ''owner'') = Some (JObj ok)"
      "map_of ok (lit ''name'') = Some name" "map_of ok (lit ''mid'') = Some mid"
    and mid: "py_truthy mid"
    and rel: "api_get env (relation_api_url (str_other env) mid) = Inr (JObj rk)"
      "map_of rk (lit ''code'') = Some (JInt 0)" "map_of rk (lit ''data'') = Some (JObj fk)"
      "map_of fk (lit ''follower'') = Some (JInt n)"
  shows "title vi = ttl" "pic vi = cover" "upName vi = name"
    "format_number (str_other env) (JInt n) = Inr (upFans vi)"
proof -
  from fetch_video_info_Inr[OF f] obtain v1 v2 t1 t2 t3 where
    1: "fetch_view env (init_video_info b) = (Inr v1, t1)"
    and 2: "fetch_relation env v1 = (Inr v2, t2)"
    and 3: "fetch_online env v2 = (Inr vi, t3)" by blast
  have a: "api_get env (view_api_url (bvid (init_video_info b))) = Inr (JObj vk)"
    using view(1) by simp
  note v = fetch_view_fields[OF 1 a view(2,3,6)]
  from v view have v1: "title v1 = ttl" "pic v1 = cover" "upName v1 = name" "upMid v1 = mid"
    by simp_all
  note k2 = fetch_relation_keeps[OF 2]
  from fetch_online_keeps[OF 3] obtain x y where k3: "vi = v2\<lparr>watchingTotal := x, watchingWeb := y\<rparr>"
    by blast
  have t: "py_truthy (upMid v1)" using mid v1 by simp
  have r: "api_get env (relation_api_url (str_other env) (upMid v1)) = Inr (JObj rk)"
    using rel(1) v1 by simp
  from fetch_relation_follower[OF 2 t r rel(2,3,4)]
  have fn: "format_number (str_other env) (JInt n) = Inr (upFans v2)" .
  have "title v2 = title v1" "pic v2 = pic v1" "upName v2 = upName v1"
    by (subst k2, simp)+
  with v1 show "title vi = ttl" "pic vi = cover" "upName vi = name" by (simp_all add: k3)
  from fn show "format_number (str_other env) (JInt n) = Inr (upFans vi)" by (simp add: k3)
qed



end
